theory Spec2Isabelle
  imports Main "HOL-Library.Word" "HOL-Library.Monad_Syntax"
begin

section \<open>LRU-K replacer (src/buffer/lru\_k\_replacer.cpp, src/include/buffer/lru\_k\_replacer.h)\<close>

text \<open>
  \<^verbatim>\<open>frame_id_t\<close> is a 32-bit integer that the replacer only compares and stores; it is
  modelled by \<open>int\<close>. The \<^verbatim>\<open>size_t\<close> members (\<^verbatim>\<open>value_\<close>, the two counters,
  \<^verbatim>\<open>replacer_size_\<close>, \<^verbatim>\<open>k_\<close>) are 64-bit words, so \<^verbatim>\<open>++\<close> and \<^verbatim>\<open>--\<close> wrap as
  in the source.

  A \<^verbatim>\<open>Node\<close> carries \<^verbatim>\<open>key_\<close>, \<^verbatim>\<open>value_\<close>, \<^verbatim>\<open>evictable_\<close> and the links
  \<^verbatim>\<open>prev_\<close>/\<^verbatim>\<open>next_\<close>. The links form one ring
  \<^verbatim>\<open>dummy_history_ -> h1 -> ... -> hn -> dummy_buffer_ -> b1 -> ... -> bm -> dummy_history_\<close>.
  The model keeps the two segments of the ring as lists of frame ids (front first):
  \<open>history\<close> is \<open>h1 ... hn\<close> and \<open>buffer\<close> is \<open>b1 ... bm\<close>. A node whose links are null
  is in neither list.
\<close>

type_synonym frame_id_t = int

record Node =
  node_key :: frame_id_t
  node_value :: "64 word"
  evictable :: bool

record LRUKReplacer =
  curr_history_size :: "64 word"
  curr_buffer_size :: "64 word"
  replacer_size :: "64 word"
  lru_k :: "64 word"
  history :: "frame_id_t list"
  buffer :: "frame_id_t list"
  entries :: "frame_id_t \<rightharpoonup> Node"

text \<open>The constructor: both counters zero, the ring holds the two dummies only.\<close>

definition LRUKReplacer_new :: "64 word \<Rightarrow> 64 word \<Rightarrow> LRUKReplacer" where
  "LRUKReplacer_new num_frames kk =
     \<lparr>curr_history_size = 0, curr_buffer_size = 0, replacer_size = num_frames, lru_k = kk,
      history = [], buffer = [], entries = Map.empty\<rparr>"

definition Size :: "LRUKReplacer \<Rightarrow> 64 word" where
  "Size r = curr_history_size r + curr_buffer_size r"

text \<open>\<^verbatim>\<open>RemoveFromPool\<close>: unlink the node if it is linked, else return.\<close>

definition RemoveFromPool :: "frame_id_t \<Rightarrow> LRUKReplacer \<Rightarrow> LRUKReplacer" where
  "RemoveFromPool f r = r\<lparr>history := removeAll f (history r), buffer := removeAll f (buffer r)\<rparr>"

definition PushFrontHistoryPool :: "frame_id_t \<Rightarrow> LRUKReplacer \<Rightarrow> LRUKReplacer" where
  "PushFrontHistoryPool f r = r\<lparr>history := f # history r\<rparr>"

definition PushFrontBufferPool :: "frame_id_t \<Rightarrow> LRUKReplacer \<Rightarrow> LRUKReplacer" where
  "PushFrontBufferPool f r = r\<lparr>buffer := f # buffer r\<rparr>"

text \<open>Writes through a \<^verbatim>\<open>Node *\<close> found in \<^verbatim>\<open>entries_\<close> or in the ring.\<close>

definition update_node :: "frame_id_t \<Rightarrow> (Node \<Rightarrow> Node) \<Rightarrow> LRUKReplacer \<Rightarrow> LRUKReplacer" where
  "update_node f g r = r\<lparr>entries := (entries r)(f := map_option g (entries r f))\<rparr>"

text \<open>
  \<^verbatim>\<open>dummy_buffer_->prev_\<close> is the last history node and \<^verbatim>\<open>dummy_history_->prev_\<close> the
  last buffer node. When the segment is empty the pointer is the other dummy (a
  default-constructed \<^verbatim>\<open>Node\<close>, \<^verbatim>\<open>key_ = 0\<close>): the source then reports frame 0. That
  needs a counter that is out of step with its list, which the operations do not
  produce (\<open>replacer_inv_reachable\<close>); the model leaves the lists as they are there.
\<close>

datatype ring_node = Dummy | Linked frame_id_t

definition segment_tail :: "frame_id_t list \<Rightarrow> ring_node" where
  "segment_tail xs = (case rev xs of [] \<Rightarrow> Dummy | f # _ \<Rightarrow> Linked f)"

definition evict_node :: "ring_node \<Rightarrow> LRUKReplacer \<Rightarrow> frame_id_t option \<times> LRUKReplacer" where
  "evict_node n r =
     (case n of
        Dummy \<Rightarrow> (Some 0, r)
      | Linked f \<Rightarrow>
          (Some f,
           update_node f (\<lambda>nd. nd\<lparr>evictable := False, node_value := 0\<rparr>) (RemoveFromPool f r)))"

text \<open>\<^verbatim>\<open>EvictInternal\<close> with a non-null out-pointer; \<open>None\<close> is the \<^verbatim>\<open>false\<close> return.\<close>

definition EvictInternal :: "LRUKReplacer \<Rightarrow> frame_id_t option \<times> LRUKReplacer" where
  "EvictInternal r =
     (if Size r = 0 then (None, r)
      else if curr_history_size r \<noteq> 0
        then evict_node (segment_tail (history r)) (r\<lparr>curr_history_size := curr_history_size r - 1\<rparr>)
        else evict_node (segment_tail (buffer r)) (r\<lparr>curr_buffer_size := curr_buffer_size r - 1\<rparr>))"

definition Evict :: "LRUKReplacer \<Rightarrow> frame_id_t option \<times> LRUKReplacer" where
  "Evict r = EvictInternal r"

definition RecordAccess :: "frame_id_t \<Rightarrow> LRUKReplacer \<Rightarrow> LRUKReplacer" where
  "RecordAccess f r =
     (case entries r f of
        None \<Rightarrow> r\<lparr>entries := (entries r)(f \<mapsto> \<lparr>node_key = f, node_value = 1, evictable = False\<rparr>)\<rparr>
      | Some nd \<Rightarrow>
          (let v = node_value nd + 1;
               r1 = r\<lparr>entries := (entries r)(f \<mapsto> nd\<lparr>node_value := v\<rparr>)\<rparr>
           in if evictable nd \<and> lru_k r \<le> v then
                (let r2 = (if v = lru_k r
                           then r1\<lparr>curr_history_size := curr_history_size r1 - 1\<rparr>
                           else r1\<lparr>curr_buffer_size := curr_buffer_size r1 - 1\<rparr>);
                     r3 = PushFrontBufferPool f (RemoveFromPool f r2)
                 in r3\<lparr>curr_buffer_size := curr_buffer_size r3 + 1\<rparr>)
              else r1))"

text \<open>
  The loop \<^verbatim>\<open>while (Size() >= replacer_size_) EvictInternal(&frame_evict_id);\<close> of
  \<^verbatim>\<open>SetEvictable\<close>. It does not return when \<^verbatim>\<open>replacer_size_\<close> is 0 (nothing is left
  to evict and the test stays true): \<open>None\<close>. The node \<^verbatim>\<open>SetEvictable\<close> holds is read
  again after the loop; the loop deletes no node, so the \<open>None\<close> branch of that read is
  never taken.
\<close>

partial_function (option) evict_while_full :: "LRUKReplacer \<Rightarrow> LRUKReplacer option" where
  "evict_while_full r =
     (if replacer_size r \<le> Size r then evict_while_full (snd (EvictInternal r)) else Some r)"

declare evict_while_full.simps [code]

definition SetEvictable :: "frame_id_t \<Rightarrow> bool \<Rightarrow> LRUKReplacer \<Rightarrow> LRUKReplacer option" where
  "SetEvictable f set_evictable r =
     (case entries r f of
        None \<Rightarrow> Some r
      | Some nd \<Rightarrow>
          if evictable nd \<and> \<not> set_evictable then
            (let r1 = (if lru_k r \<le> node_value nd
                       then r\<lparr>curr_buffer_size := curr_buffer_size r - 1\<rparr>
                       else r\<lparr>curr_history_size := curr_history_size r - 1\<rparr>)
             in Some (update_node f (\<lambda>n. n\<lparr>evictable := False, node_value := 0\<rparr>)
                        (RemoveFromPool f r1)))
          else if \<not> evictable nd \<and> set_evictable then
            (case evict_while_full r of
               None \<Rightarrow> None
             | Some r1 \<Rightarrow>
                 (case entries r1 f of
                    None \<Rightarrow> None
                  | Some nd1 \<Rightarrow>
                      (let r2 = update_node f (\<lambda>n. n\<lparr>evictable := True\<rparr>) r1
                       in if lru_k r2 \<le> node_value nd1
                          then Some ((PushFrontBufferPool f r2)\<lparr>curr_buffer_size := curr_buffer_size r2 + 1\<rparr>)
                          else Some ((PushFrontHistoryPool f r2)\<lparr>curr_history_size := curr_history_size r2 + 1\<rparr>))))
          else Some r)"

text \<open>\<^verbatim>\<open>Remove\<close>; the node is deleted and erased whether or not it was evictable.\<close>

definition Remove :: "frame_id_t \<Rightarrow> LRUKReplacer \<Rightarrow> LRUKReplacer" where
  "Remove f r =
     (case entries r f of
        None \<Rightarrow> r
      | Some nd \<Rightarrow>
          (let r1 = (if evictable nd then
                       (let r2 = (if lru_k r \<le> node_value nd
                                  then r\<lparr>curr_buffer_size := curr_buffer_size r - 1\<rparr>
                                  else r\<lparr>curr_history_size := curr_history_size r - 1\<rparr>)
                        in update_node f (\<lambda>n. n\<lparr>evictable := False, node_value := 0\<rparr>)
                             (RemoveFromPool f r2))
                     else r)
           in r1\<lparr>entries := (entries r1)(f := None)\<rparr>))"

text \<open>Sequences of replacer calls, for the statements about "every sequence".\<close>

datatype replacer_op = OpRecordAccess frame_id_t | OpSetEvictable frame_id_t bool
  | OpRemove frame_id_t | OpEvict

fun replacer_step :: "replacer_op \<Rightarrow> LRUKReplacer \<Rightarrow> LRUKReplacer option" where
  "replacer_step (OpRecordAccess f) r = Some (RecordAccess f r)"
| "replacer_step (OpSetEvictable f b) r = SetEvictable f b r"
| "replacer_step (OpRemove f) r = Some (Remove f r)"
| "replacer_step OpEvict r = Some (snd (Evict r))"

fun replacer_run :: "replacer_op list \<Rightarrow> LRUKReplacer \<Rightarrow> LRUKReplacer option" where
  "replacer_run [] r = Some r"
| "replacer_run (x # xs) r = (case replacer_step x r of None \<Rightarrow> None | Some r' \<Rightarrow> replacer_run xs r')"

text \<open>
  The invariant of the replacer: each counter is the length of its list; no frame is
  linked twice; the history list holds the frames whose node is evictable with fewer
  than \<open>K\<close> counted accesses, the buffer list those whose node is evictable with at
  least \<open>K\<close>.
\<close>

definition replacer_inv :: "LRUKReplacer \<Rightarrow> bool" where
  "replacer_inv r \<longleftrightarrow>
     unat (curr_history_size r) = length (history r)
     \<and> unat (curr_buffer_size r) = length (buffer r)
     \<and> length (history r) + length (buffer r) < 2 ^ 64
     \<and> distinct (history r @ buffer r)
     \<and> (\<forall>f. (f \<in> set (history r))
              = (\<exists>nd. entries r f = Some nd \<and> evictable nd \<and> node_value nd < lru_k r))
     \<and> (\<forall>f. (f \<in> set (buffer r))
              = (\<exists>nd. entries r f = Some nd \<and> evictable nd \<and> lru_k r \<le> node_value nd))"

text \<open>No access count has reached \<open>m\<close> yet; \<^verbatim>\<open>value_++\<close> wraps after \<open>2 ^ 64\<close> accesses.\<close>

definition values_below :: "nat \<Rightarrow> LRUKReplacer \<Rightarrow> bool" where
  "values_below m r \<longleftrightarrow> (\<forall>f nd. entries r f = Some nd \<longrightarrow> unat (node_value nd) \<le> m)"

section \<open>Extendible hash table (src/container/hash/extendible\_hash\_table.cpp)\<close>

text \<open>
  The directory \<^verbatim>\<open>dir_\<close> is a vector of \<^verbatim>\<open>shared_ptr<Bucket>\<close>: several slots may hold
  the same bucket. The model keeps the buckets in a store (\<open>buckets\<close>, a list that only
  grows) and the directory as the list of their handles (indices into the store), so a
  write through one slot is seen through every slot that shares the bucket.
  \<^verbatim>\<open>dir_[i]\<close> for an index outside the directory is undefined behaviour; the
  invariant \<open>table_inv\<close> below, which the constructor establishes and every operation
  keeps, has every index inside.

  \<^verbatim>\<open>std::hash<K>()(key)\<close> is the parameter \<open>h\<close>, the hash as a number. The depths are
  \<^verbatim>\<open>int\<close>; \<^verbatim>\<open>(1 << d) - 1\<close> is the mask of the low \<open>d\<close> bits as long as \<open>d \<le> 30\<close>,
  and overflows beyond. Only the doubling step raises \<^verbatim>\<open>global_depth_\<close>; where it would
  pass 30 the run ends (\<open>None\<close>).
\<close>

record ('k, 'v) Bucket =
  bsize :: nat
  depth :: nat
  items :: "('k \<times> 'v) list"

record ('k, 'v) ExtendibleHashTable =
  global_depth :: nat
  bucket_size :: nat
  num_buckets :: nat
  dir :: "nat list"
  buckets :: "('k, 'v) Bucket list"

definition Bucket_new :: "nat \<Rightarrow> nat \<Rightarrow> ('k, 'v) Bucket" where
  "Bucket_new array_size d = \<lparr>bsize = array_size, depth = d, items = []\<rparr>"

definition ExtendibleHashTable_new :: "nat \<Rightarrow> ('k, 'v) ExtendibleHashTable" where
  "ExtendibleHashTable_new n =
     \<lparr>global_depth = 0, bucket_size = n, num_buckets = 1, dir = [0], buckets = [Bucket_new n 0]\<rparr>"

text \<open>
  Modelled from the spec: \<^verbatim>\<open>Bucket::IsFull\<close> is declared in the header file, which is
  not among the sources ("a bounded list of (K,V) pairs", "if the bucket is not full,
  append"): the list has reached the bound.
\<close>

definition IsFull :: "('k, 'v) Bucket \<Rightarrow> bool" where
  "IsFull b = (bsize b \<le> length (items b))"

text \<open>\<^verbatim>\<open>Bucket::Find\<close>: the value of the first pair with the key.\<close>

fun list_find :: "'k \<Rightarrow> ('k \<times> 'v) list \<Rightarrow> 'v option" where
  "list_find k [] = None"
| "list_find k (p # ps) = (if fst p = k then Some (snd p) else list_find k ps)"

definition Bucket_Find :: "'k \<Rightarrow> ('k, 'v) Bucket \<Rightarrow> 'v option" where
  "Bucket_Find k b = list_find k (items b)"



text \<open>
  \<^verbatim>\<open>Bucket::Insert\<close>: \<^verbatim>\<open>false\<close> when the bucket is full; else the first pair with the key
  gets the new value, or the pair is appended.
\<close>

fun list_put :: "'k \<Rightarrow> 'v \<Rightarrow> ('k \<times> 'v) list \<Rightarrow> ('k \<times> 'v) list" where
  "list_put k v [] = [(k, v)]"
| "list_put k v (p # ps) = (if fst p = k then (fst p, v) # ps else p # list_put k v ps)"

definition Bucket_Insert :: "'k \<Rightarrow> 'v \<Rightarrow> ('k, 'v) Bucket \<Rightarrow> bool \<times> ('k, 'v) Bucket" where
  "Bucket_Insert k v b = (if IsFull b then (False, b) else (True, b\<lparr>items := list_put k v (items b)\<rparr>))"

definition IndexOf :: "('k \<Rightarrow> nat) \<Rightarrow> ('k, 'v) ExtendibleHashTable \<Rightarrow> 'k \<Rightarrow> nat" where
  "IndexOf h t k = h k mod 2 ^ global_depth t"

definition GetIndexBucket :: "('k, 'v) ExtendibleHashTable \<Rightarrow> nat \<Rightarrow> ('k, 'v) Bucket" where
  "GetIndexBucket t i = buckets t ! (dir t ! i)"

definition set_bucket ::
  "nat \<Rightarrow> ('k, 'v) Bucket \<Rightarrow> ('k, 'v) ExtendibleHashTable \<Rightarrow> ('k, 'v) ExtendibleHashTable" where
  "set_bucket bh b t = t\<lparr>buckets := (buckets t)[bh := b]\<rparr>"

text \<open>\<^verbatim>\<open>Find\<close>: \<open>Some v\<close> for \<^verbatim>\<open>true\<close> with \<^verbatim>\<open>value = v\<close>, \<open>None\<close> for \<^verbatim>\<open>false\<close>.\<close>

definition Find :: "('k \<Rightarrow> nat) \<Rightarrow> 'k \<Rightarrow> ('k, 'v) ExtendibleHashTable \<Rightarrow> 'v option" where
  "Find h k t = Bucket_Find k (GetIndexBucket t (IndexOf h t k))"


text \<open>
  One round of the \<^verbatim>\<open>for\<close> loop over the directory in \<^verbatim>\<open>Insert\<close>, at slot \<open>i\<close>.
  \<open>bh\<close> is the handle of the overflowing bucket, whose depth has been incremented.
  The pair (\<^verbatim>\<open>build\<close>, \<^verbatim>\<open>new_bucket\<close>) is the option \<open>nb\<close>: \<open>None\<close> until the sibling
  is built.
\<close>

definition split_step ::
  "nat \<Rightarrow> nat \<Rightarrow> nat \<Rightarrow> nat option \<times> ('k, 'v) ExtendibleHashTable
     \<Rightarrow> nat option \<times> ('k, 'v) ExtendibleHashTable" where
  "split_step first bh i st =
     (case st of (nb, t) \<Rightarrow>
        (let d = depth (buckets t ! bh)
         in if i mod 2 ^ (d - 1) = first then
              (if first \<noteq> i mod 2 ^ d then
                 (case nb of
                    None \<Rightarrow>
                      (let n = length (buckets t);
                           t' = t\<lparr>buckets := buckets t @ [Bucket_new (bucket_size t) d],
                                  num_buckets := num_buckets t + 1\<rparr>
                       in (Some n, t'\<lparr>dir := (dir t')[i := n]\<rparr>))
                  | Some n \<Rightarrow> (Some n, t\<lparr>dir := (dir t)[i := n]\<rparr>))
               else (nb, t))
            else (nb, t)))"

text \<open>\<^verbatim>\<open>GetIndexBucket(IndexOf(element.first))->Insert(element.first, element.second)\<close>,
  the result dropped.\<close>

definition reinsert ::
  "('k \<Rightarrow> nat) \<Rightarrow> 'k \<times> 'v \<Rightarrow> ('k, 'v) ExtendibleHashTable \<Rightarrow> ('k, 'v) ExtendibleHashTable" where
  "reinsert h kv t =
     (let bh = dir t ! IndexOf h t (fst kv)
      in set_bucket bh (snd (Bucket_Insert (fst kv) (snd kv) (buckets t ! bh))) t)"

text \<open>The body of the \<^verbatim>\<open>while\<close> loop of \<^verbatim>\<open>Insert\<close>: split the bucket of \<open>k\<close>.\<close>

definition split_bucket ::
  "('k \<Rightarrow> nat) \<Rightarrow> 'k \<Rightarrow> ('k, 'v) ExtendibleHashTable \<Rightarrow> ('k, 'v) ExtendibleHashTable option" where
  "split_bucket h k t =
     (let bh = dir t ! IndexOf h t k;
          lst = items (buckets t ! bh);
          t1 = set_bucket bh ((buckets t ! bh)\<lparr>items := []\<rparr>) t
      in if depth (GetIndexBucket t1 (IndexOf h t1 k)) = global_depth t1 \<and> 30 \<le> global_depth t1
         then None
         else
           (let t2 = (if depth (GetIndexBucket t1 (IndexOf h t1 k)) = global_depth t1
                      then t1\<lparr>global_depth := global_depth t1 + 1, dir := dir t1 @ dir t1\<rparr>
                      else t1);
                first = h k mod 2 ^ depth (buckets t2 ! bh);
                t3 = set_bucket bh ((buckets t2 ! bh)\<lparr>depth := depth (buckets t2 ! bh) + 1\<rparr>) t2;
                t4 = snd (fold (split_step first bh) [first + 1..<length (dir t3)] (None, t3))
            in Some (fold (reinsert h) lst t4)))"

text \<open>\<^verbatim>\<open>Insert\<close>: try the bucket, split it while it refuses. \<open>None\<close>: the call does not
  return (or leaves the range of \<^verbatim>\<open>int\<close>).\<close>

partial_function (option) Insert_entry ::
  "('k \<Rightarrow> nat) \<Rightarrow> 'k \<Rightarrow> 'v \<Rightarrow> ('k, 'v) ExtendibleHashTable \<Rightarrow> ('k, 'v) ExtendibleHashTable option" where
  "Insert_entry h k v t =
     (let bh = dir t ! IndexOf h t k;
          r = Bucket_Insert k v (buckets t ! bh)
      in if fst r then Some (set_bucket bh (snd r) t)
         else (case split_bucket h k t of
                 None \<Rightarrow> None
               | Some t' \<Rightarrow> Insert_entry h k v t'))"

declare Insert_entry.simps [code]

text \<open>
  \<^verbatim>\<open>std::hash<int>\<close> of the standard library in use: the key itself, converted to
  \<^verbatim>\<open>size_t\<close>. The table's theorems hold for every \<open>h\<close>; the concrete runs use this one.
\<close>

definition hash_int :: "int \<Rightarrow> nat" where
  "hash_int k = nat (k mod 2 ^ 64)"

fun insert_entries ::
  "('k \<Rightarrow> nat) \<Rightarrow> ('k \<times> 'v) list \<Rightarrow> ('k, 'v) ExtendibleHashTable \<Rightarrow> ('k, 'v) ExtendibleHashTable option" where
  "insert_entries h [] t = Some t"
| "insert_entries h (kv # kvs) t =
     (case Insert_entry h (fst kv) (snd kv) t of None \<Rightarrow> None | Some t' \<Rightarrow> insert_entries h kvs t')"

text \<open>
  The invariant of the table. The directory has \<open>2 ^ global_depth\<close> slots and the global
  depth is in the range where the masks are exact. For every slot \<open>i\<close>, with \<open>b\<close> the
  bucket it holds: the handle is in the store; the local depth is at most the global one;
  the bucket has the table's bound and respects it; its keys are distinct; the slots that
  share \<open>b\<close> are those that agree with \<open>i\<close> on the low \<open>depth b\<close> bits; and every key
  in \<open>b\<close> has those low bits in its hash.
\<close>

definition slot_ok :: "('k \<Rightarrow> nat) \<Rightarrow> ('k, 'v) ExtendibleHashTable \<Rightarrow> nat \<Rightarrow> bool" where
  "slot_ok h t i \<longleftrightarrow>
     dir t ! i < length (buckets t)
     \<and> depth (buckets t ! (dir t ! i)) \<le> global_depth t
     \<and> bsize (buckets t ! (dir t ! i)) = bucket_size t
     \<and> length (items (buckets t ! (dir t ! i))) \<le> bucket_size t
     \<and> distinct (map fst (items (buckets t ! (dir t ! i))))
     \<and> (\<forall>j<length (dir t).
           (dir t ! j = dir t ! i)
             = (j mod 2 ^ depth (buckets t ! (dir t ! i)) = i mod 2 ^ depth (buckets t ! (dir t ! i))))
     \<and> (\<forall>kv\<in>set (items (buckets t ! (dir t ! i))).
           h (fst kv) mod 2 ^ depth (buckets t ! (dir t ! i))
             = i mod 2 ^ depth (buckets t ! (dir t ! i)))"

definition table_inv :: "('k \<Rightarrow> nat) \<Rightarrow> ('k, 'v) ExtendibleHashTable \<Rightarrow> bool" where
  "table_inv h t \<longleftrightarrow>
     length (dir t) = 2 ^ global_depth t \<and> global_depth t \<le> 30
     \<and> (\<forall>i<length (dir t). slot_ok h t i)"

text \<open>What the \<^verbatim>\<open>for\<close> loop over the directory does to the directory: the slots \<open>i\<close>
  of the list with \<open>i mod 2 ^ (d - 1) = first\<close> and \<open>i mod 2 ^ d \<noteq> first\<close> get the
  handle \<open>n\<close>.\<close>

definition split_dir :: "nat \<Rightarrow> nat \<Rightarrow> nat \<Rightarrow> nat list \<Rightarrow> nat list \<Rightarrow> nat list" where
  "split_dir first d n js ds =
     fold (\<lambda>i ds. if i mod 2 ^ (d - 1) = first \<and> first \<noteq> i mod 2 ^ d then ds[i := n] else ds) js ds"

text \<open>
  The table after the \<^verbatim>\<open>for\<close> loop of one round of \<^verbatim>\<open>Insert\<close>'s \<^verbatim>\<open>while\<close> loop, in
  closed form (lemma \<open>split_bucket_eq\<close>): the bucket of \<open>k\<close> is empty and one level
  deeper, its new sibling is the last bucket of the store, and the slots whose low
  \<open>depth + 1\<close> bits are the sibling's pattern hold the sibling.
\<close>

definition after_split ::
  "('k \<Rightarrow> nat) \<Rightarrow> 'k \<Rightarrow> ('k, 'v) ExtendibleHashTable \<Rightarrow> ('k, 'v) ExtendibleHashTable" where
  "after_split h k t =
     (let bh = dir t ! IndexOf h t k;
          b = buckets t ! bh;
          d = depth b;
          first = h k mod 2 ^ d;
          dir2 = (if d = global_depth t then dir t @ dir t else dir t)
      in t\<lparr>global_depth := (if d = global_depth t then global_depth t + 1 else global_depth t),
           num_buckets := num_buckets t + 1,
           dir := map (\<lambda>j. if j mod 2 ^ Suc d = first + 2 ^ d then length (buckets t) else dir2 ! j)
                    [0..<length dir2],
           buckets := (buckets t)[bh := b\<lparr>items := [], depth := Suc d\<rparr>]
                        @ [Bucket_new (bucket_size t) (Suc d)]\<rparr>)"







section \<open>Pages and the buffer pool (src/buffer/buffer\_pool\_manager\_instance.cpp)\<close>

text \<open>
  Modelled from the spec: the sentinels of \<^verbatim>\<open>common/config.h\<close>, which is not among the
  sources ("\<^verbatim>\<open>INVALID_PAGE_ID\<close> for no such page", "header page (page id 0)",
  "\<^verbatim>\<open>INVALID_INDEX_ID\<close> from key-search helpers meaning key absent").
\<close>

definition INVALID_PAGE_ID :: int where
  "INVALID_PAGE_ID = - 1"

definition HEADER_PAGE_ID :: int where
  "HEADER_PAGE_ID = 0"

definition INVALID_INDEX_ID :: int where
  "INVALID_INDEX_ID = - 1"

text \<open>
  Modelled from the spec: the on-page layout of a B+ tree node
  (\<^verbatim>\<open>b_plus_tree_page.h\<close>, \<^verbatim>\<open>b_plus_tree_leaf_page.h\<close>,
  \<^verbatim>\<open>b_plus_tree_internal_page.h\<close> are not among the sources). Section 3: both kinds carry
  \<^verbatim>\<open>page_id\<close>, \<^verbatim>\<open>parent_page_id\<close>, \<^verbatim>\<open>size\<close>, \<^verbatim>\<open>max_size\<close>; leaves also
  \<^verbatim>\<open>next_page_id\<close>; the entries are a packed array of (key, value) pairs. Keys are
  integers under the usual order (the tests build them with \<^verbatim>\<open>SetFromInteger\<close>), a
  leaf value is a record id and an internal value a child page id, both integers. The
  array is the memory behind the header: a slot keeps what was last written to it, and
  a slot never written reads as zero.
\<close>

datatype IndexPageType = INVALID_INDEX_PAGE | LEAF_PAGE | INTERNAL_PAGE

record BPlusTreePage =
  page_type :: IndexPageType
  tsize :: int
  max_size :: int
  parent_page_id :: int
  tpage_id :: int
  next_page_id :: int
  array :: "int \<Rightarrow> int \<times> int"

text \<open>
  The bytes of a page: all zero (after \<^verbatim>\<open>ResetMemory\<close>), a tree node, or the header
  page's records (index name, root page id).
\<close>

datatype page_data = Zeroed | TreeP BPlusTreePage | HeaderP "(string \<times> int) list"

record Page =
  page_id :: int
  pin_count :: int
  is_dirty :: bool
  pdata :: page_data

text \<open>
  The page table is used through \<^verbatim>\<open>Find\<close>, \<^verbatim>\<open>Insert\<close> and \<^verbatim>\<open>Remove\<close> only and is
  kept as the finite map it implements. The disk manager is an external collaborator:
  \<^verbatim>\<open>WritePage\<close> stores the bytes under the page id, \<^verbatim>\<open>ReadPage\<close> gives them back
  (zero bytes for a page never written), \<^verbatim>\<open>DeallocatePage\<close> does nothing to them.
  \<^verbatim>\<open>pages_\<close> is an array of \<^verbatim>\<open>pool_size_\<close> frames; an index outside it is undefined
  behaviour and ends the run (\<open>None\<close>). Page ids and pin counts are \<open>int\<close>: the
  32-bit counters do not wrap in fewer than \<open>2 ^ 31\<close> allocations.
\<close>

record BufferPoolManagerInstance =
  pool_size :: nat
  pages :: "Page list"
  page_table :: "int \<rightharpoonup> frame_id_t"
  replacer :: LRUKReplacer
  free_list :: "frame_id_t list"
  next_page_id_counter :: int
  disk :: "int \<rightharpoonup> page_data"

definition Page_new :: Page where
  "Page_new = \<lparr>page_id = INVALID_PAGE_ID, pin_count = 0, is_dirty = False, pdata = Zeroed\<rparr>"

text \<open>
  The constructor. Modelled from the spec: \<^verbatim>\<open>next_page_id_\<close> is initialised in the header
  file ("a monotonic counter"); the first page id is 0, the header page's.
\<close>

definition BufferPoolManagerInstance_new :: "nat \<Rightarrow> nat \<Rightarrow> BufferPoolManagerInstance" where
  "BufferPoolManagerInstance_new n replacer_k =
     \<lparr>pool_size = n, pages = replicate n Page_new, page_table = Map.empty,
      replacer = LRUKReplacer_new (of_nat n) (of_nat replacer_k),
      free_list = map int [0..<n], next_page_id_counter = 0, disk = Map.empty\<rparr>"

definition frame_ok :: "BufferPoolManagerInstance \<Rightarrow> frame_id_t \<Rightarrow> bool" where
  "frame_ok s f = (0 \<le> f \<and> nat f < length (pages s))"

definition frame_at :: "BufferPoolManagerInstance \<Rightarrow> frame_id_t \<Rightarrow> Page" where
  "frame_at s f = pages s ! nat f"

definition set_frame :: "frame_id_t \<Rightarrow> Page \<Rightarrow> BufferPoolManagerInstance \<Rightarrow> BufferPoolManagerInstance" where
  "set_frame f pg s = s\<lparr>pages := (pages s)[nat f := pg]\<rparr>"

definition ReadPage :: "BufferPoolManagerInstance \<Rightarrow> int \<Rightarrow> page_data" where
  "ReadPage s pid = (case disk s pid of None \<Rightarrow> Zeroed | Some d \<Rightarrow> d)"

text \<open>\<^verbatim>\<open>GetAvailableFrame\<close>: the frame id written to \<^verbatim>\<open>*avilFrameId\<close>, or \<open>None\<close> for \<^verbatim>\<open>false\<close>.\<close>

definition GetAvailableFrame ::
  "BufferPoolManagerInstance \<Rightarrow> (frame_id_t option \<times> BufferPoolManagerInstance) option" where
  "GetAvailableFrame s =
     (case free_list s of
        f # fs \<Rightarrow> Some (Some f, s\<lparr>free_list := fs\<rparr>)
      | [] \<Rightarrow>
          (case Evict (replacer s) of
             (None, r') \<Rightarrow> Some (None, s\<lparr>replacer := r'\<rparr>)
           | (Some f, r') \<Rightarrow>
               if \<not> frame_ok s f then None
               else
                 (let s1 = s\<lparr>replacer := r'\<rparr>;
                      pg = frame_at s1 f;
                      s2 = (if is_dirty pg
                            then set_frame f (pg\<lparr>is_dirty := False\<rparr>)
                                   (s1\<lparr>disk := (disk s1)(page_id pg \<mapsto> pdata pg)\<rparr>)
                            else s1);
                      s3 = s2\<lparr>page_table := (page_table s2)(page_id (frame_at s2 f) := None)\<rparr>
                  in Some (Some f, s3))))"

text \<open>
  The common tail of \<^verbatim>\<open>NewPgImp\<close> and \<^verbatim>\<open>FetchPgImp\<close>:
  \<^verbatim>\<open>RecordAccess; SetEvictable(frame_id, false); pin_count_++\<close>.
\<close>

definition pin_frame ::
  "frame_id_t \<Rightarrow> BufferPoolManagerInstance \<Rightarrow> BufferPoolManagerInstance option" where
  "pin_frame f s =
     (case SetEvictable f False (RecordAccess f (replacer s)) of
        None \<Rightarrow> None
      | Some r \<Rightarrow>
          (let s1 = s\<lparr>replacer := r\<rparr>; pg = frame_at s1 f
           in Some (set_frame f (pg\<lparr>pin_count := pin_count pg + 1\<rparr>) s1)))"

text \<open>
  \<^verbatim>\<open>NewPgImp\<close>: the result is \<open>None\<close> for \<^verbatim>\<open>nullptr\<close>, else the frame the returned
  \<^verbatim>\<open>Page *\<close> points to and the id written to \<^verbatim>\<open>*page_id\<close>.
\<close>

definition NewPgImp ::
  "BufferPoolManagerInstance \<Rightarrow> ((frame_id_t \<times> int) option \<times> BufferPoolManagerInstance) option" where
  "NewPgImp s =
     (case GetAvailableFrame s of
        None \<Rightarrow> None
      | Some (None, s') \<Rightarrow> Some (None, s')
      | Some (Some f, s1) \<Rightarrow>
          if \<not> frame_ok s1 f then None
          else
            (let pid = next_page_id_counter s1;
                 s2 = s1\<lparr>next_page_id_counter := pid + 1\<rparr>;
                 s3 = set_frame f ((frame_at s2 f)\<lparr>page_id := pid, is_dirty := False,
                                                   pin_count := 0, pdata := Zeroed\<rparr>) s2;
                 s4 = s3\<lparr>page_table := (page_table s3)(pid \<mapsto> f)\<rparr>
             in case pin_frame f s4 of
                  None \<Rightarrow> None
                | Some s5 \<Rightarrow> Some (Some (f, pid), s5)))"

definition FetchPgImp ::
  "int \<Rightarrow> BufferPoolManagerInstance \<Rightarrow> (frame_id_t option \<times> BufferPoolManagerInstance) option" where
  "FetchPgImp pid s =
     (case page_table s pid of
        Some f \<Rightarrow>
          if \<not> frame_ok s f then None
          else (case pin_frame f s of None \<Rightarrow> None | Some s' \<Rightarrow> Some (Some f, s'))
      | None \<Rightarrow>
          (case GetAvailableFrame s of
             None \<Rightarrow> None
           | Some (None, s') \<Rightarrow> Some (None, s')
           | Some (Some f, s1) \<Rightarrow>
               if \<not> frame_ok s1 f then None
               else
                 (let s2 = set_frame f ((frame_at s1 f)\<lparr>page_id := pid, is_dirty := False,
                                                        pin_count := 0, pdata := ReadPage s1 pid\<rparr>) s1;
                      s3 = s2\<lparr>page_table := (page_table s2)(pid \<mapsto> f)\<rparr>
                  in case pin_frame f s3 of
                       None \<Rightarrow> None
                     | Some s4 \<Rightarrow> Some (Some f, s4))))"

definition UnpinPgImp ::
  "int \<Rightarrow> bool \<Rightarrow> BufferPoolManagerInstance \<Rightarrow> (bool \<times> BufferPoolManagerInstance) option" where
  "UnpinPgImp pid dirty s =
     (case page_table s pid of
        None \<Rightarrow> Some (False, s)
      | Some f \<Rightarrow>
          if \<not> frame_ok s f then None
          else if pin_count (frame_at s f) \<le> 0 then Some (False, s)
          else
            (let pg = frame_at s f;
                 s1 = set_frame f (pg\<lparr>pin_count := pin_count pg - 1\<rparr>) s
             in case (if pin_count (frame_at s1 f) = 0
                      then map_option (\<lambda>r. s1\<lparr>replacer := r\<rparr>) (SetEvictable f True (replacer s1))
                      else Some s1) of
                  None \<Rightarrow> None
                | Some s2 \<Rightarrow>
                    Some (True,
                          if dirty then set_frame f ((frame_at s2 f)\<lparr>is_dirty := True\<rparr>) s2 else s2)))"

definition DeletePgImp ::
  "int \<Rightarrow> BufferPoolManagerInstance \<Rightarrow> (bool \<times> BufferPoolManagerInstance) option" where
  "DeletePgImp pid s =
     (case page_table s pid of
        None \<Rightarrow> Some (True, s)
      | Some f \<Rightarrow>
          if \<not> frame_ok s f then None
          else if 0 < pin_count (frame_at s f) then Some (False, s)
          else
            (let s1 = s\<lparr>page_table := (page_table s)(pid := None)\<rparr>;
                 s2 = s1\<lparr>replacer := Remove f (replacer s1)\<rparr>;
                 s3 = s2\<lparr>free_list := free_list s2 @ [f]\<rparr>
             in Some (True,
                      set_frame f ((frame_at s3 f)\<lparr>page_id := INVALID_PAGE_ID, pdata := Zeroed,
                                                    pin_count := 0, is_dirty := False\<rparr>) s3)))"

text \<open>A pool of three frames (scenario BP-1, \<open>K = 2\<close>) after \<open>n\<close> calls of \<^verbatim>\<open>NewPage\<close>,
  none of them unpinned.\<close>

fun pool_after_new_pages :: "nat \<Rightarrow> BufferPoolManagerInstance option" where
  "pool_after_new_pages 0 = Some (BufferPoolManagerInstance_new 3 2)"
| "pool_after_new_pages (Suc n) =
     (case pool_after_new_pages n of
        None \<Rightarrow> None
      | Some s \<Rightarrow> map_option snd (NewPgImp s))"

definition full_pool :: BufferPoolManagerInstance where
  "full_pool = (case pool_after_new_pages 3 of None \<Rightarrow> BufferPoolManagerInstance_new 3 2 | Some s \<Rightarrow> s)"


section \<open>B+ tree pages\<close>

text \<open>
  Modelled from the spec: the accessors of the tree page classes, whose sources
  (\<^verbatim>\<open>b_plus_tree_page.cpp\<close>, \<^verbatim>\<open>b_plus_tree_leaf_page.cpp\<close>,
  \<^verbatim>\<open>b_plus_tree_internal_page.cpp\<close>) are missing. \<^verbatim>\<open>reinterpret_cast\<close> of zeroed bytes
  gives a page whose fields are all zero. \<^verbatim>\<open>min_size\<close> is the ceiling of
  \<^verbatim>\<open>max_size / 2\<close>. A leaf \<^verbatim>\<open>Find\<close> gives the index of the key or
  \<^verbatim>\<open>INVALID_INDEX_ID\<close>; an internal \<^verbatim>\<open>Find\<close> gives the greatest index whose key is at
  most the search key, entry 0 counting as minus infinity; \<^verbatim>\<open>InsertDataToPage\<close> inserts
  keeping the order (an internal page keeps entry 0 in place); \<^verbatim>\<open>IndexAtOfValue\<close> gives
  the index of a child pointer.
\<close>

definition zero_tree_page :: BPlusTreePage where
  "zero_tree_page =
     \<lparr>page_type = INVALID_INDEX_PAGE, tsize = 0, max_size = 0, parent_page_id = 0,
      tpage_id = 0, next_page_id = 0, array = (\<lambda>i. (0, 0))\<rparr>"

definition IsLeafPage :: "BPlusTreePage \<Rightarrow> bool" where
  "IsLeafPage p = (page_type p = LEAF_PAGE)"

definition KeyAt :: "BPlusTreePage \<Rightarrow> int \<Rightarrow> int" where
  "KeyAt p i = fst (array p i)"

definition ValueAt :: "BPlusTreePage \<Rightarrow> int \<Rightarrow> int" where
  "ValueAt p i = snd (array p i)"

definition SetKeyValueAt :: "int \<Rightarrow> int \<Rightarrow> int \<Rightarrow> BPlusTreePage \<Rightarrow> BPlusTreePage" where
  "SetKeyValueAt i k v p = p\<lparr>array := (array p)(i := (k, v))\<rparr>"

definition SetSize :: "int \<Rightarrow> BPlusTreePage \<Rightarrow> BPlusTreePage" where
  "SetSize n p = p\<lparr>tsize := n\<rparr>"

definition IncreaseSize :: "int \<Rightarrow> BPlusTreePage \<Rightarrow> BPlusTreePage" where
  "IncreaseSize n p = p\<lparr>tsize := tsize p + n\<rparr>"

definition GetMinSize :: "BPlusTreePage \<Rightarrow> int" where
  "GetMinSize p = (max_size p + 1) div 2"

definition Init_leaf :: "int \<Rightarrow> int \<Rightarrow> int \<Rightarrow> BPlusTreePage \<Rightarrow> BPlusTreePage" where
  "Init_leaf pid parent mx p =
     p\<lparr>page_type := LEAF_PAGE, tsize := 0, tpage_id := pid, parent_page_id := parent,
       max_size := mx, next_page_id := INVALID_PAGE_ID\<rparr>"

definition Init_internal :: "int \<Rightarrow> int \<Rightarrow> int \<Rightarrow> BPlusTreePage \<Rightarrow> BPlusTreePage" where
  "Init_internal pid parent mx p =
     p\<lparr>page_type := INTERNAL_PAGE, tsize := 0, tpage_id := pid, parent_page_id := parent,
       max_size := mx\<rparr>"

definition Leaf_Find :: "BPlusTreePage \<Rightarrow> int \<Rightarrow> int" where
  "Leaf_Find p k =
     (case find (\<lambda>i. KeyAt p i = k) [0..tsize p - 1] of None \<Rightarrow> INVALID_INDEX_ID | Some i \<Rightarrow> i)"

definition Internal_Find :: "BPlusTreePage \<Rightarrow> int \<Rightarrow> int" where
  "Internal_Find p k =
     (case find (\<lambda>i. KeyAt p i \<le> k) (rev [1..tsize p - 1]) of None \<Rightarrow> 0 | Some i \<Rightarrow> i)"

definition IndexAtOfValue :: "BPlusTreePage \<Rightarrow> int \<Rightarrow> int" where
  "IndexAtOfValue p v =
     (case find (\<lambda>i. ValueAt p i = v) [0..tsize p - 1] of None \<Rightarrow> INVALID_INDEX_ID | Some i \<Rightarrow> i)"

definition insert_at :: "int \<Rightarrow> int \<Rightarrow> int \<Rightarrow> BPlusTreePage \<Rightarrow> BPlusTreePage" where
  "insert_at pos k v p =
     p\<lparr>array := (\<lambda>i. if i = pos then (k, v)
                     else if pos < i \<and> i \<le> tsize p then array p (i - 1) else array p i),
       tsize := tsize p + 1\<rparr>"

definition InsertDataToPage :: "int \<Rightarrow> int \<Rightarrow> BPlusTreePage \<Rightarrow> BPlusTreePage" where
  "InsertDataToPage k v p =
     (let lo = (if IsLeafPage p then 0 else 1);
          pos = (case find (\<lambda>i. k < KeyAt p i) [lo..tsize p - 1] of None \<Rightarrow> tsize p | Some i \<Rightarrow> i)
      in insert_at pos k v p)"

text \<open>
  Modelled from the spec: the header page's two calls (\<^verbatim>\<open>header_page.h\<close> is missing);
  \<^verbatim>\<open>InsertRecord\<close> adds a record for a new name, \<^verbatim>\<open>UpdateRecord\<close> rewrites the record
  of a known name.
\<close>

definition InsertRecord :: "string \<Rightarrow> int \<Rightarrow> (string \<times> int) list \<Rightarrow> (string \<times> int) list" where
  "InsertRecord name rid recs = (if name \<in> fst ` set recs then recs else recs @ [(name, rid)])"

definition UpdateRecord :: "string \<Rightarrow> int \<Rightarrow> (string \<times> int) list \<Rightarrow> (string \<times> int) list" where
  "UpdateRecord name rid recs = map (\<lambda>(n, r). if n = name then (n, rid) else (n, r)) recs"

text \<open>The entries a page shows: slots \<open>0 .. size - 1\<close> of its array.\<close>

definition page_entries :: "BPlusTreePage \<Rightarrow> (int \<times> int) list" where
  "page_entries p = map (array p) [0..tsize p - 1]"

section \<open>B+ tree (src/storage/index/b\_plus\_tree.cpp)\<close>

text \<open>
  The tree holds its buffer pool; a \<^verbatim>\<open>Page *\<close> or node pointer is the frame it points
  into, and every read and write of a node goes through that frame, so a pointer kept
  after its page left the frame reads what the frame holds then. A null pointer that
  is dereferenced, a frame that holds the header's records read as a node, and an
  uninitialised pointer end the run: \<open>None\<close>, as does a call that does not return.
  \<^verbatim>\<open>size / 2\<close> on \<^verbatim>\<open>int\<close> truncates towards zero.
\<close>

record BPlusTree =
  index_name :: string
  root_page_id :: int
  buffer_pool_manager :: BufferPoolManagerInstance
  leaf_max_size :: int
  internal_max_size :: int

definition BPlusTree_new ::
  "string \<Rightarrow> BufferPoolManagerInstance \<Rightarrow> int \<Rightarrow> int \<Rightarrow> BPlusTree" where
  "BPlusTree_new name b leaf_max internal_max =
     \<lparr>index_name = name, root_page_id = INVALID_PAGE_ID, buffer_pool_manager = b,
      leaf_max_size = leaf_max, internal_max_size = internal_max\<rparr>"

definition half :: "int \<Rightarrow> int" where
  "half n = (if 0 \<le> n then n div 2 else - ((- n) div 2))"

definition NewPage :: "BPlusTree \<Rightarrow> ((frame_id_t \<times> int) \<times> BPlusTree) option" where
  "NewPage t =
     (case NewPgImp (buffer_pool_manager t) of
        None \<Rightarrow> None
      | Some (None, b) \<Rightarrow> None
      | Some (Some fp, b) \<Rightarrow> Some (fp, t\<lparr>buffer_pool_manager := b\<rparr>))"

definition FetchPage :: "int \<Rightarrow> BPlusTree \<Rightarrow> (frame_id_t \<times> BPlusTree) option" where
  "FetchPage pid t =
     (case FetchPgImp pid (buffer_pool_manager t) of
        None \<Rightarrow> None
      | Some (None, b) \<Rightarrow> None
      | Some (Some f, b) \<Rightarrow> Some (f, t\<lparr>buffer_pool_manager := b\<rparr>))"

definition UnpinPage :: "int \<Rightarrow> bool \<Rightarrow> BPlusTree \<Rightarrow> BPlusTree option" where
  "UnpinPage pid dirty t =
     map_option (\<lambda>(ok, b). t\<lparr>buffer_pool_manager := b\<rparr>) (UnpinPgImp pid dirty (buffer_pool_manager t))"

definition DeletePage :: "int \<Rightarrow> BPlusTree \<Rightarrow> BPlusTree option" where
  "DeletePage pid t =
     map_option (\<lambda>(ok, b). t\<lparr>buffer_pool_manager := b\<rparr>) (DeletePgImp pid (buffer_pool_manager t))"

definition node :: "frame_id_t \<Rightarrow> BPlusTree \<Rightarrow> BPlusTreePage option" where
  "node f t =
     (if frame_ok (buffer_pool_manager t) f then
        (case pdata (frame_at (buffer_pool_manager t) f) of
           Zeroed \<Rightarrow> Some zero_tree_page
         | TreeP p \<Rightarrow> Some p
         | HeaderP recs \<Rightarrow> None)
      else None)"

definition set_node :: "frame_id_t \<Rightarrow> (BPlusTreePage \<Rightarrow> BPlusTreePage) \<Rightarrow> BPlusTree \<Rightarrow> BPlusTree option" where
  "set_node f g t =
     (case node f t of
        None \<Rightarrow> None
      | Some p \<Rightarrow>
          (let b = buffer_pool_manager t
           in Some (t\<lparr>buffer_pool_manager := set_frame f ((frame_at b f)\<lparr>pdata := TreeP (g p)\<rparr>) b\<rparr>)))"

text \<open>\<^verbatim>\<open>dst->SetKeyValueAt(di, src->KeyAt(si), src->ValueAt(si))\<close>.\<close>

definition copy_entry ::
  "frame_id_t \<Rightarrow> int \<Rightarrow> frame_id_t \<Rightarrow> int \<Rightarrow> BPlusTree \<Rightarrow> BPlusTree option" where
  "copy_entry dst di src si t =
     (case node src t of
        None \<Rightarrow> None
      | Some p \<Rightarrow> set_node dst (SetKeyValueAt di (KeyAt p si) (ValueAt p si)) t)"

fun for_each :: "int list \<Rightarrow> (int \<Rightarrow> 's \<Rightarrow> 's option) \<Rightarrow> 's \<Rightarrow> 's option" where
  "for_each [] body s = Some s"
| "for_each (i # js) body s = (case body i s of None \<Rightarrow> None | Some s' \<Rightarrow> for_each js body s')"

definition IsEmpty :: "BPlusTree \<Rightarrow> bool" where
  "IsEmpty t = (root_page_id t = INVALID_PAGE_ID)"

partial_function (option) FindLeafPage_loop ::
  "int \<Rightarrow> frame_id_t \<Rightarrow> BPlusTree \<Rightarrow> (frame_id_t \<times> BPlusTree) option" where
  "FindLeafPage_loop k page t =
     (case node page t of
        None \<Rightarrow> None
      | Some p \<Rightarrow>
          if IsLeafPage p then Some (page, t)
          else
            (case FetchPage (ValueAt p (Internal_Find p k)) t of
               None \<Rightarrow> None
             | Some (page', t1) \<Rightarrow>
                 (case node page t1 of
                    None \<Rightarrow> None
                  | Some internal \<Rightarrow>
                      (case UnpinPage (tpage_id internal) False t1 of
                         None \<Rightarrow> None
                       | Some t2 \<Rightarrow> FindLeafPage_loop k page' t2))))"

declare FindLeafPage_loop.simps [code]

definition FindLeafPage :: "int \<Rightarrow> BPlusTree \<Rightarrow> (frame_id_t \<times> BPlusTree) option" where
  "FindLeafPage k t =
     (case FetchPage (root_page_id t) t of
        None \<Rightarrow> None
      | Some (page, t1) \<Rightarrow> FindLeafPage_loop k page t1)"

text \<open>\<^verbatim>\<open>GetValue\<close>: the returned flag and the \<^verbatim>\<open>result\<close> vector.\<close>

definition GetValue :: "int \<Rightarrow> int list \<Rightarrow> BPlusTree \<Rightarrow> (bool \<times> int list \<times> BPlusTree) option" where
  "GetValue k result t =
     (case FindLeafPage k t of
        None \<Rightarrow> None
      | Some (leaf, t1) \<Rightarrow>
          (case node leaf t1 of
             None \<Rightarrow> None
           | Some p \<Rightarrow>
               (let index = Leaf_Find p k
                in if index = INVALID_INDEX_ID then Some (False, result, t1)
                   else
                     (case UnpinPage (tpage_id p) False t1 of
                        None \<Rightarrow> None
                      | Some t2 \<Rightarrow> Some (True, result @ [ValueAt p index], t2)))))"

definition UpdateRootPageId :: "bool \<Rightarrow> BPlusTree \<Rightarrow> BPlusTree option" where
  "UpdateRootPageId insert_record t =
     (case FetchPage HEADER_PAGE_ID t of
        None \<Rightarrow> None
      | Some (hf, t1) \<Rightarrow>
          (let b = buffer_pool_manager t1
           in case (case pdata (frame_at b hf) of
                      Zeroed \<Rightarrow> Some []
                    | HeaderP recs \<Rightarrow> Some recs
                    | TreeP p \<Rightarrow> None) of
                None \<Rightarrow> None
              | Some recs \<Rightarrow>
                  (let recs' = (if insert_record
                                then InsertRecord (index_name t1) (root_page_id t1) recs
                                else UpdateRecord (index_name t1) (root_page_id t1) recs);
                       t2 = t1\<lparr>buffer_pool_manager :=
                                 set_frame hf ((frame_at b hf)\<lparr>pdata := HeaderP recs'\<rparr>) b\<rparr>
                   in UnpinPage HEADER_PAGE_ID True t2)))"

text \<open>
  The new-root block shared by \<^verbatim>\<open>SplitLeafPage\<close> and the loop of
  \<^verbatim>\<open>InsertLeafPage\<close>: \<^verbatim>\<open>NewPage(&root_page_id_)\<close>, \<^verbatim>\<open>Init\<close>, the two entries,
  \<^verbatim>\<open>IncreaseSize(2)\<close>. \<open>old\<close> and \<open>newPage\<close> are the two halves.
\<close>

definition make_new_root :: "frame_id_t \<Rightarrow> frame_id_t \<Rightarrow> BPlusTree \<Rightarrow> BPlusTree option" where
  "make_new_root old newPage t = do {
     ((newRootPage, rid), t1) \<leftarrow> NewPage t;
     let t2 = t1\<lparr>root_page_id := rid\<rparr>;
     t3 \<leftarrow> set_node newRootPage (Init_internal (root_page_id t2) INVALID_PAGE_ID (internal_max_size t2)) t2;
     po \<leftarrow> node old t3;
     t4 \<leftarrow> set_node newRootPage (SetKeyValueAt 0 0 (tpage_id po)) t3;
     pn \<leftarrow> node newPage t4;
     t5 \<leftarrow> set_node newRootPage (SetKeyValueAt 1 (KeyAt pn 0) (tpage_id pn)) t4;
     set_node newRootPage (IncreaseSize 2) t5
   }"

text \<open>\<^verbatim>\<open>SplitLeafPage\<close>: returns \<^verbatim>\<open>parent_pid\<close>.\<close>

definition SplitLeafPage :: "frame_id_t \<Rightarrow> BPlusTree \<Rightarrow> (int \<times> BPlusTree) option" where
  "SplitLeafPage page t = do {
     p0 \<leftarrow> node page t;
     let size = tsize p0;
     ((newPage, new_pid), t1) \<leftarrow> NewPage t;
     p1 \<leftarrow> node page t1;
     t2 \<leftarrow> set_node newPage (Init_leaf new_pid (parent_page_id p1) (leaf_max_size t1)) t1;
     let splitIndex = half size;
     t3 \<leftarrow> for_each [splitIndex..size - 1] (\<lambda>i. copy_entry newPage (i - splitIndex) page i) t2;
     t4 \<leftarrow> set_node newPage (SetSize (size - splitIndex)) t3;
     t5 \<leftarrow> set_node page (SetSize splitIndex) t4;
     p5 \<leftarrow> node page t5;
     (parent_pid, t9) \<leftarrow>
       (if tpage_id p5 = root_page_id t5 then do {
          t6 \<leftarrow> make_new_root page newPage t5;
          t7 \<leftarrow> UpdateRootPageId False t6;
          t8 \<leftarrow> set_node page (\<lambda>q. q\<lparr>parent_page_id := root_page_id t7\<rparr>) t7;
          Some (root_page_id t8, t8)
        } else do {
          let parent_pid = parent_page_id p5;
          (parentPage, t6) \<leftarrow> FetchPage parent_pid t5;
          pn \<leftarrow> node newPage t6;
          t7 \<leftarrow> set_node parentPage (InsertDataToPage (KeyAt pn 0) (tpage_id pn)) t6;
          Some (parent_pid, t7)
        });
     t10 \<leftarrow> set_node newPage (\<lambda>q. q\<lparr>parent_page_id := parent_pid\<rparr>) t9;
     pg \<leftarrow> node page t10;
     t11 \<leftarrow> set_node newPage (\<lambda>q. q\<lparr>next_page_id := next_page_id pg\<rparr>) t10;
     pn \<leftarrow> node newPage t11;
     t12 \<leftarrow> set_node page (\<lambda>q. q\<lparr>next_page_id := tpage_id pn\<rparr>) t11;
     t13 \<leftarrow> UnpinPage new_pid True t12;
     t14 \<leftarrow> UnpinPage parent_pid True t13;
     Some (parent_pid, t14)
   }"

text \<open>
  One round of the \<^verbatim>\<open>while\<close> loop of \<^verbatim>\<open>InsertLeafPage\<close> that splits an overflowing
  internal page; the result is the next \<^verbatim>\<open>current_page\<close> (\<open>None\<close> for \<^verbatim>\<open>nullptr\<close>).
\<close>

definition split_internal_step ::
  "frame_id_t \<Rightarrow> BPlusTree \<Rightarrow> (frame_id_t option \<times> BPlusTree) option" where
  "split_internal_step current_page t = do {
     c0 \<leftarrow> node current_page t;
     let size = tsize c0;
     ((newPage, new_pid), t1) \<leftarrow> NewPage t;
     c1 \<leftarrow> node current_page t1;
     t2 \<leftarrow> set_node newPage (Init_internal new_pid (parent_page_id c1) (internal_max_size t1)) t1;
     let splitIndex = half size;
     t3 \<leftarrow> for_each [splitIndex..size - 1] (\<lambda>i. copy_entry newPage (i - splitIndex) current_page i) t2;
     t4 \<leftarrow> set_node newPage (SetSize (size - splitIndex)) t3;
     t5 \<leftarrow> set_node current_page (SetSize splitIndex) t4;
     c5 \<leftarrow> node current_page t5;
     t9 \<leftarrow>
       (if tpage_id c5 = root_page_id t5 then do {
          t6 \<leftarrow> make_new_root current_page newPage t5;
          t7 \<leftarrow> set_node newPage (\<lambda>q. SetKeyValueAt 0 0 (ValueAt q 0) q) t6;
          t8 \<leftarrow> UpdateRootPageId False t7;
          t8a \<leftarrow> set_node current_page (\<lambda>q. q\<lparr>parent_page_id := root_page_id t8\<rparr>) t8;
          set_node newPage (\<lambda>q. q\<lparr>parent_page_id := root_page_id t8a\<rparr>) t8a
        } else do {
          (parentPage, t6) \<leftarrow> FetchPage (parent_page_id c5) t5;
          pn \<leftarrow> node newPage t6;
          t7 \<leftarrow> set_node parentPage (InsertDataToPage (KeyAt pn 0) (tpage_id pn)) t6;
          t8 \<leftarrow> set_node newPage (\<lambda>q. SetKeyValueAt 0 0 (ValueAt q 0) q) t7;
          c8 \<leftarrow> node current_page t8;
          t8a \<leftarrow> set_node newPage (\<lambda>q. q\<lparr>parent_page_id := parent_page_id c8\<rparr>) t8;
          pp \<leftarrow> node parentPage t8a;
          UnpinPage (tpage_id pp) True t8a
        });
     c9 \<leftarrow> node current_page t9;
     let parent_pid = parent_page_id c9;
     pn \<leftarrow> node newPage t9;
     t10 \<leftarrow> UnpinPage (tpage_id pn) True t9;
     c10 \<leftarrow> node current_page t10;
     t11 \<leftarrow> UnpinPage (tpage_id c10) True t10;
     (if parent_pid \<noteq> INVALID_PAGE_ID
      then do { (nxt, t12) \<leftarrow> FetchPage parent_pid t11; Some (Some nxt, t12) }
      else Some (None, t11))
   }"

partial_function (option) split_internal_loop ::
  "frame_id_t option \<Rightarrow> BPlusTree \<Rightarrow> (frame_id_t option \<times> BPlusTree) option" where
  "split_internal_loop current_page t =
     (case current_page of
        None \<Rightarrow> Some (None, t)
      | Some cp \<Rightarrow>
          (case node cp t of
             None \<Rightarrow> None
           | Some c \<Rightarrow>
               if max_size c < tsize c
               then (case split_internal_step cp t of
                       None \<Rightarrow> None
                     | Some (nxt, t') \<Rightarrow> split_internal_loop nxt t')
               else Some (Some cp, t)))"

declare split_internal_loop.simps [code]

definition InsertLeafPage :: "int \<Rightarrow> int \<Rightarrow> BPlusTree \<Rightarrow> BPlusTree option" where
  "InsertLeafPage k v t = do {
     (leaf, t1) \<leftarrow> FindLeafPage k t;
     p1 \<leftarrow> node leaf t1;
     let index = Leaf_Find p1 k;
     (if index \<noteq> INVALID_INDEX_ID then do {
        t2 \<leftarrow> set_node leaf (SetKeyValueAt index k v) t1;
        p2 \<leftarrow> node leaf t2;
        UnpinPage (tpage_id p2) True t2
      } else do {
        t2 \<leftarrow> set_node leaf (InsertDataToPage k v) t1;
        p2 \<leftarrow> node leaf t2;
        (if tsize p2 \<le> max_size p2 then UnpinPage (tpage_id p2) True t2
         else do {
           (current_page_id, t3) \<leftarrow> SplitLeafPage leaf t2;
           (current_page, t4) \<leftarrow> FetchPage current_page_id t3;
           (final, t5) \<leftarrow> split_internal_loop (Some current_page) t4;
           (case final of
              None \<Rightarrow> None
            | Some cp \<Rightarrow> do { c \<leftarrow> node cp t5; UnpinPage (tpage_id c) True t5 })
         })
      })
   }"

text \<open>\<^verbatim>\<open>Insert\<close>: the returned flag and the tree.\<close>

definition Insert :: "int \<Rightarrow> int \<Rightarrow> BPlusTree \<Rightarrow> (bool \<times> BPlusTree) option" where
  "Insert k v t =
     (if IsEmpty t then do {
        ((root_page, rid), t1) \<leftarrow> NewPage t;
        let t2 = t1\<lparr>root_page_id := rid\<rparr>;
        t3 \<leftarrow> set_node root_page (Init_leaf (root_page_id t2) INVALID_PAGE_ID (leaf_max_size t2)) t2;
        t4 \<leftarrow> UpdateRootPageId True t3;
        t5 \<leftarrow> set_node root_page (InsertDataToPage k v) t4;
        t6 \<leftarrow> UnpinPage (root_page_id t5) True t5;
        Some (True, t6)
      } else do {
        t1 \<leftarrow> InsertLeafPage k v t;
        Some (True, t1)
      })"

definition isRedistribute :: "BPlusTreePage \<Rightarrow> bool" where
  "isRedistribute nd = (GetMinSize nd < tsize nd)"

definition isCoalesce :: "BPlusTreePage \<Rightarrow> BPlusTreePage \<Rightarrow> bool" where
  "isCoalesce l r = (tsize l + tsize r \<le> max_size r)"

text \<open>\<^verbatim>\<open>for (int i = 1; i < rNode->GetSize(); i++) rNode->SetKeyValueAt(i-1, ...)\<close>.\<close>

definition shift_left_from :: "int \<Rightarrow> frame_id_t \<Rightarrow> BPlusTree \<Rightarrow> BPlusTree option" where
  "shift_left_from lo nd t = do {
     p \<leftarrow> node nd t;
     for_each [lo..tsize p - 1] (\<lambda>i. copy_entry nd (i - 1) nd i) t
   }"

text \<open>\<^verbatim>\<open>for (int i = 0; i < rNode->GetSize(); i++) rNode->SetKeyValueAt(i+1, ...)\<close>, in the
  source's ascending order.\<close>

definition shift_right_all :: "frame_id_t \<Rightarrow> BPlusTree \<Rightarrow> BPlusTree option" where
  "shift_right_all nd t = do {
     p \<leftarrow> node nd t;
     for_each [0..tsize p - 1] (\<lambda>i. copy_entry nd (i + 1) nd i) t
   }"

definition Redistribute ::
  "frame_id_t \<Rightarrow> frame_id_t \<Rightarrow> frame_id_t \<Rightarrow> int \<Rightarrow> BPlusTree \<Rightarrow> BPlusTree option" where
  "Redistribute lNode rNode parent index t = do {
     l0 \<leftarrow> node lNode t;
     t9 \<leftarrow>
       (if tsize l0 < GetMinSize l0 then
          (if IsLeafPage l0 then do {
             r1 \<leftarrow> node rNode t;
             t1 \<leftarrow> set_node parent (\<lambda>q. SetKeyValueAt index (KeyAt r1 1) (ValueAt q index) q) t;
             r2 \<leftarrow> node rNode t1;
             t2 \<leftarrow> set_node lNode (\<lambda>q. SetKeyValueAt (tsize q) (KeyAt r2 0) (ValueAt r2 0) q) t1;
             shift_left_from 1 rNode t2
           } else do {
             pa \<leftarrow> node parent t;
             t1 \<leftarrow> set_node rNode (\<lambda>q. SetKeyValueAt 0 (KeyAt pa index) (ValueAt q 0) q) t;
             r1 \<leftarrow> node rNode t1;
             t2 \<leftarrow> set_node parent (\<lambda>q. SetKeyValueAt index (KeyAt r1 1) (ValueAt q index) q) t1;
             t3 \<leftarrow> set_node rNode (\<lambda>q. SetKeyValueAt 1 0 (ValueAt q 1) q) t2;
             r3 \<leftarrow> node rNode t3;
             t4 \<leftarrow> set_node lNode (\<lambda>q. SetKeyValueAt (tsize q) (KeyAt r3 0) (ValueAt r3 0) q) t3;
             shift_left_from 1 rNode t4
           })
        else do {
          r0 \<leftarrow> node rNode t;
          (if IsLeafPage r0 then do {
             t1 \<leftarrow> shift_right_all rNode t;
             l1 \<leftarrow> node lNode t1;
             let moveIndex = tsize l1 - 1;
             t2 \<leftarrow> set_node rNode (SetKeyValueAt 0 (KeyAt l1 moveIndex) (ValueAt l1 moveIndex)) t1;
             r2 \<leftarrow> node rNode t2;
             set_node parent (\<lambda>q. SetKeyValueAt index (KeyAt r2 0) (ValueAt q index) q) t2
           } else do {
             t1 \<leftarrow> shift_right_all rNode t;
             pa \<leftarrow> node parent t1;
             t2 \<leftarrow> set_node rNode (\<lambda>q. SetKeyValueAt 1 (KeyAt pa index) (ValueAt q 1) q) t1;
             l2 \<leftarrow> node lNode t2;
             let moveIndex = tsize l2 - 1;
             t3 \<leftarrow> set_node rNode (SetKeyValueAt 0 (KeyAt l2 moveIndex) (ValueAt l2 moveIndex)) t2;
             r3 \<leftarrow> node rNode t3;
             t4 \<leftarrow> set_node parent (\<lambda>q. SetKeyValueAt index (KeyAt r3 0) (ValueAt q index) q) t3;
             set_node rNode (\<lambda>q. SetKeyValueAt 0 0 (ValueAt q 0) q) t4
           })
        });
     t10 \<leftarrow> set_node lNode (IncreaseSize 1) t9;
     set_node rNode (IncreaseSize (- 1)) t10
   }"

definition Coalesce ::
  "frame_id_t \<Rightarrow> frame_id_t \<Rightarrow> frame_id_t \<Rightarrow> int \<Rightarrow> BPlusTree \<Rightarrow> BPlusTree option" where
  "Coalesce lNode rNode parent index t = do {
     l0 \<leftarrow> node lNode t;
     t1 \<leftarrow>
       (if IsLeafPage l0 then do {
          r0 \<leftarrow> node rNode t;
          set_node lNode (\<lambda>q. q\<lparr>next_page_id := next_page_id r0\<rparr>) t
        } else do {
          pa \<leftarrow> node parent t;
          set_node rNode (\<lambda>q. SetKeyValueAt 0 (KeyAt pa index) (ValueAt q 0) q) t
        });
     l1 \<leftarrow> node lNode t1;
     t2 \<leftarrow> for_each [0..tsize l1 - 1] (\<lambda>i. copy_entry lNode (tsize l1 + i) rNode i) t1;
     pa2 \<leftarrow> node parent t2;
     t3 \<leftarrow> for_each [index + 1..tsize pa2 - 1] (\<lambda>i. copy_entry parent (i - 1) parent i) t2;
     r3 \<leftarrow> node rNode t3;
     t4 \<leftarrow> set_node lNode (IncreaseSize (tsize r3)) t3;
     r4 \<leftarrow> node rNode t4;
     DeletePage (tpage_id r4) t4
   }"

text \<open>
  \<^verbatim>\<open>SolveOverflow\<close>. The source's two arms for a leaf and for an internal \<^verbatim>\<open>node\<close>
  differ only in the pointer type they cast to; on the one page record they are the
  same arm. The local \<^verbatim>\<open>node\<close> is replaced by the left sibling after a merge into it.
\<close>

definition SolveOverflow :: "frame_id_t \<Rightarrow> BPlusTree \<Rightarrow> BPlusTree option" where
  "SolveOverflow nd t = do {
     n0 \<leftarrow> node nd t;
     let parent_pid = parent_page_id n0;
     (parentPage, t1) \<leftarrow> FetchPage parent_pid t;
     pa1 \<leftarrow> node parentPage t1;
     n1 \<leftarrow> node nd t1;
     let current_index = IndexAtOfValue pa1 (tpage_id n1);
     let left_sib_index = current_index - 1;
     let right_sib_index = current_index + 1;
     (borrow, t5) \<leftarrow>
       (if 0 \<le> left_sib_index then do {
          let sibling_pid = ValueAt pa1 left_sib_index;
          (sib, t2) \<leftarrow> FetchPage sibling_pid t1;
          sb \<leftarrow> node sib t2;
          (b, t3) \<leftarrow> (if isRedistribute sb
                      then do { t' \<leftarrow> Redistribute sib nd parentPage current_index t2; Some (True, t') }
                      else Some (False, t2));
          t4 \<leftarrow> UnpinPage sibling_pid True t3;
          Some (b, t4)
        } else if right_sib_index < tsize pa1 then do {
          let sibling_pid = ValueAt pa1 right_sib_index;
          (sib, t2) \<leftarrow> FetchPage sibling_pid t1;
          sb \<leftarrow> node sib t2;
          (b, t3) \<leftarrow> (if isRedistribute sb
                      then do { t' \<leftarrow> Redistribute nd sib parentPage right_sib_index t2; Some (True, t') }
                      else Some (False, t2));
          t4 \<leftarrow> UnpinPage sibling_pid True t3;
          Some (b, t4)
        } else Some (False, t1));
     (nd', t8) \<leftarrow>
       (if \<not> borrow then
          (if 0 \<le> left_sib_index then do {
             pa5 \<leftarrow> node parentPage t5;
             (sib, t6) \<leftarrow> FetchPage (ValueAt pa5 left_sib_index) t5;
             sb \<leftarrow> node sib t6;
             n6 \<leftarrow> node nd t6;
             (if isCoalesce sb n6
              then do { t7 \<leftarrow> Coalesce sib nd parentPage current_index t6; Some (sib, t7) }
              else Some (nd, t6))
           } else do {
             pa5 \<leftarrow> node parentPage t5;
             (sib, t6) \<leftarrow> FetchPage (ValueAt pa5 right_sib_index) t5;
             sb \<leftarrow> node sib t6;
             n6 \<leftarrow> node nd t6;
             (if isCoalesce n6 sb
              then do { t7 \<leftarrow> Coalesce nd sib parentPage right_sib_index t6; Some (nd, t7) }
              else Some (nd, t6))
           })
        else Some (nd, t5));
     pa8 \<leftarrow> node parentPage t8;
     t12 \<leftarrow>
       (if tsize pa8 = 1 \<and> tpage_id pa8 = root_page_id t8 then do {
          t9 \<leftarrow> DeletePage (root_page_id t8) t8;
          n9 \<leftarrow> node nd' t9;
          let t10 = t9\<lparr>root_page_id := tpage_id n9\<rparr>;
          t11 \<leftarrow> set_node nd' (\<lambda>q. q\<lparr>parent_page_id := INVALID_PAGE_ID\<rparr>) t10;
          UpdateRootPageId False t11
        } else Some t8);
     UnpinPage parent_pid True t12
   }"

text \<open>The \<^verbatim>\<open>while\<close> loop of \<^verbatim>\<open>Remove\<close> that walks up while the parent underflows.\<close>

partial_function (option) underflow_loop ::
  "frame_id_t \<Rightarrow> BPlusTree \<Rightarrow> (frame_id_t \<times> BPlusTree) option" where
  "underflow_loop nd t =
     (case node nd t of
        None \<Rightarrow> None
      | Some n \<Rightarrow>
          if tsize n < GetMinSize n then
            (case SolveOverflow nd t of
               None \<Rightarrow> None
             | Some t1 \<Rightarrow>
                 (case node nd t1 of
                    None \<Rightarrow> None
                  | Some n1 \<Rightarrow>
                      if parent_page_id n1 \<noteq> INVALID_PAGE_ID then
                        (case UnpinPage (tpage_id n1) True t1 of
                           None \<Rightarrow> None
                         | Some t2 \<Rightarrow>
                             (case FetchPage (parent_page_id n1) t2 of
                                None \<Rightarrow> None
                              | Some (nd', t3) \<Rightarrow> underflow_loop nd' t3))
                      else Some (nd, t1)))
          else Some (nd, t))"

declare underflow_loop.simps [code]

text \<open>
  \<^verbatim>\<open>Remove\<close> (of the tree); named \<open>Remove_key\<close> beside the replacer's \<open>Remove\<close>. When
  the leaf does not underflow the final \<^verbatim>\<open>UnpinPage(node->GetPageId(), true)\<close> reads the
  uninitialised pointer \<^verbatim>\<open>node\<close>: \<open>None\<close>.
\<close>

definition Remove_key :: "int \<Rightarrow> BPlusTree \<Rightarrow> BPlusTree option" where
  "Remove_key k t =
     (if IsEmpty t then Some t
      else do {
        (leaf, t1) \<leftarrow> FindLeafPage k t;
        p1 \<leftarrow> node leaf t1;
        let index = Leaf_Find p1 k;
        (if index = INVALID_INDEX_ID then UnpinPage (tpage_id p1) True t1
         else do {
           t2 \<leftarrow> for_each [index..tsize p1 - 2] (\<lambda>i. copy_entry leaf i leaf (i + 1)) t1;
           t3 \<leftarrow> set_node leaf (IncreaseSize (- 1)) t2;
           p3 \<leftarrow> node leaf t3;
           (if tpage_id p3 = root_page_id t3 then
              (if tsize p3 = 0 then DeletePage (root_page_id t3) t3 else Some t3)
            else if tsize p3 < GetMinSize p3 then do {
              t4 \<leftarrow> SolveOverflow leaf t3;
              p4 \<leftarrow> node leaf t4;
              (nd, t5) \<leftarrow> FetchPage (parent_page_id p4) t4;
              (nd', t6) \<leftarrow> underflow_loop nd t5;
              n6 \<leftarrow> node nd' t6;
              UnpinPage (tpage_id n6) True t6
            } else None)
         })
      })"

text \<open>A run of operations on the tree, and the state the test fixtures start from:
  a pool whose first page, the header page, has been allocated and stays pinned.\<close>

fun insert_all :: "(int \<times> int) list \<Rightarrow> BPlusTree \<Rightarrow> (bool list \<times> BPlusTree) option" where
  "insert_all [] t = Some ([], t)"
| "insert_all ((k, v) # kvs) t =
     (case Insert k v t of
        None \<Rightarrow> None
      | Some (ok, t') \<Rightarrow>
          (case insert_all kvs t' of None \<Rightarrow> None | Some (oks, t'') \<Rightarrow> Some (ok # oks, t'')))"

definition fresh_tree :: "nat \<Rightarrow> nat \<Rightarrow> int \<Rightarrow> int \<Rightarrow> BPlusTree option" where
  "fresh_tree n replacer_k leaf_max internal_max =
     (case NewPgImp (BufferPoolManagerInstance_new n replacer_k) of
        Some (Some fp, b) \<Rightarrow> Some (BPlusTree_new ''foo_pk'' b leaf_max internal_max)
      | _ \<Rightarrow> None)"

text \<open>
  The tree of scenario TREE-1 (\<^verbatim>\<open>leaf_max_size = 3\<close>, \<^verbatim>\<open>internal_max_size = 3\<close>) in a pool
  of 50 frames with \<open>K = 2\<close>, after inserting the keys \<open>ks\<close> in order, key \<open>k\<close> with
  the value \<open>100 + k\<close>; with it the flags the \<^verbatim>\<open>Insert\<close> calls returned.
\<close>

definition tree_after_inserts :: "int list \<Rightarrow> (bool list \<times> BPlusTree) option" where
  "tree_after_inserts ks =
     (case fresh_tree 50 2 3 3 of
        None \<Rightarrow> None
      | Some t \<Rightarrow> insert_all (map (\<lambda>k. (k, 100 + k)) ks) t)"

text \<open>What is resident under a page id: the pin count of its frame and the entries of
  the node in it.\<close>

definition resident_node :: "BPlusTree \<Rightarrow> int \<Rightarrow> (int \<times> (int \<times> int) list) option" where
  "resident_node t pid =
     (case page_table (buffer_pool_manager t) pid of
        None \<Rightarrow> None
      | Some f \<Rightarrow>
          (case node f t of
             None \<Rightarrow> None
           | Some p \<Rightarrow> Some (pin_count (frame_at (buffer_pool_manager t) f), page_entries p)))"

section \<open>Theorems: LRU-K replacer\<close>

lemma Remove_unknown: "entries r f = None \<Longrightarrow> Remove f r = r"
  by (simp add: Remove_def)

lemma evict_node_returns: "fst (evict_node n r) \<noteq> None"
  by (cases n) (simp_all add: evict_node_def)

lemma Evict_None_iff: "fst (Evict r) = None \<longleftrightarrow> Size r = 0"
  using evict_node_returns by (auto simp: Evict_def EvictInternal_def)

lemma Evict_empty: "Size r = 0 \<Longrightarrow> Evict r = (None, r)"
  by (simp add: Evict_def EvictInternal_def)

lemma Evict_None_state: "Evict r = (None, r') \<Longrightarrow> r' = r \<and> Size r = 0"
proof -
  assume a: "Evict r = (None, r')"
  then have "fst (Evict r) = None" by simp
  then have z: "Size r = 0" by (simp add: Evict_None_iff)
  with a show ?thesis by (simp add: Evict_empty)
qed

subsection \<open>The invariant of the replacer\<close>

lemma length_removeAll_distinct:
  "distinct xs \<Longrightarrow> x \<in> set xs \<Longrightarrow> length (removeAll x xs) = length xs - 1"
proof (induction xs)
  case Nil
  then show ?case by simp
next
  case (Cons a xs)
  show ?case
  proof (cases "x = a")
    case True
    with Cons.prems have "x \<notin> set xs" by simp
    then have "removeAll x xs = xs" by (induction xs) auto
    with True show ?thesis by simp
  next
    case False
    with Cons.prems have xin: "x \<in> set xs" by simp
    then have "0 < length xs" by (rule length_pos_if_in_set)
    with Cons False xin show ?thesis by simp
  qed
qed

lemma removeAll_notin: "x \<notin> set xs \<Longrightarrow> removeAll x xs = xs"
  by (induction xs) auto

lemma unat_add_64:
  fixes x y :: "64 word"
  assumes "unat x + unat y < 2 ^ 64"
  shows "unat (x + y) = unat x + unat y"
proof -
  have "unat x + unat y < 2 ^ LENGTH(64)" using assms by simp
  then show ?thesis by (rule unat_add_lem [THEN iffD1])
qed

lemma unat_dec: "unat (c :: 64 word) = n \<Longrightarrow> 0 < n \<Longrightarrow> unat (c - 1) = n - 1"
proof -
  assume a: "unat c = n" and b: "0 < n"
  then have "c \<noteq> 0" by auto
  then have "unat (c - 1) = unat c - 1" by (rule unat_minus_one)
  with a show ?thesis by simp
qed

lemma unat_inc: "unat (c :: 64 word) = n \<Longrightarrow> Suc n < 2 ^ 64 \<Longrightarrow> unat (c + 1) = Suc n"
proof -
  assume a: "unat c = n" and b: "Suc n < 2 ^ 64"
  have "unat c + unat (1 :: 64 word) < 2 ^ 64" using a b by simp
  then have "unat (c + 1) = unat c + unat (1 :: 64 word)" by (rule unat_add_64)
  then show ?thesis using a by simp
qed

lemma Size_unat:
  "replacer_inv r \<Longrightarrow> unat (Size r) = length (history r) + length (buffer r)"
proof -
  assume inv: "replacer_inv r"
  then have "unat (curr_history_size r) + unat (curr_buffer_size r) < 2 ^ 64"
    by (simp add: replacer_inv_def)
  then have "unat (curr_history_size r + curr_buffer_size r)
               = unat (curr_history_size r) + unat (curr_buffer_size r)"
    by (rule unat_add_64)
  then show ?thesis using inv by (simp add: Size_def replacer_inv_def)
qed

lemma replacer_inv_new: "replacer_inv (LRUKReplacer_new n kk)"
  by (simp add: replacer_inv_def LRUKReplacer_new_def)


lemma replacer_invD:
  assumes "replacer_inv r"
  shows "unat (curr_history_size r) = length (history r)"
    and "unat (curr_buffer_size r) = length (buffer r)"
    and "length (history r) + length (buffer r) < 2 ^ 64"
    and "distinct (history r)" and "distinct (buffer r)"
    and "set (history r) \<inter> set (buffer r) = {}"
    and "\<And>f. (f \<in> set (history r))
              = (\<exists>nd. entries r f = Some nd \<and> evictable nd \<and> node_value nd < lru_k r)"
    and "\<And>f. (f \<in> set (buffer r))
              = (\<exists>nd. entries r f = Some nd \<and> evictable nd \<and> lru_k r \<le> node_value nd)"
  using assms unfolding replacer_inv_def by auto

lemma replacer_invI:
  assumes "unat (curr_history_size r) = length (history r)"
    and "unat (curr_buffer_size r) = length (buffer r)"
    and "length (history r) + length (buffer r) < 2 ^ 64"
    and "distinct (history r)" and "distinct (buffer r)"
    and "set (history r) \<inter> set (buffer r) = {}"
    and "\<And>f. (f \<in> set (history r))
              = (\<exists>nd. entries r f = Some nd \<and> evictable nd \<and> node_value nd < lru_k r)"
    and "\<And>f. (f \<in> set (buffer r))
              = (\<exists>nd. entries r f = Some nd \<and> evictable nd \<and> lru_k r \<le> node_value nd)"
  shows "replacer_inv r"
  using assms unfolding replacer_inv_def by auto

lemma unlink_history:
  assumes inv: "replacer_inv r" and f: "f \<in> set (history r)"
  shows "replacer_inv (update_node f (\<lambda>n. n\<lparr>evictable := False, node_value := 0\<rparr>)
           (RemoveFromPool f (r\<lparr>curr_history_size := curr_history_size r - 1\<rparr>)))"
    (is "replacer_inv ?r'")
proof (rule replacer_invI)
  note D = replacer_invD [OF inv]
  from f D(6) have fb: "f \<notin> set (buffer r)" by auto
  have h': "history ?r' = removeAll f (history r)"
    by (simp add: update_node_def RemoveFromPool_def)
  have b': "buffer ?r' = buffer r"
    using fb by (simp add: update_node_def RemoveFromPool_def removeAll_notin)
  have e': "entries ?r' = (entries r)(f := map_option (\<lambda>n. n\<lparr>evictable := False, node_value := 0\<rparr>) (entries r f))"
    by (simp add: update_node_def RemoveFromPool_def)
  have k': "lru_k ?r' = lru_k r" by (simp add: update_node_def RemoveFromPool_def)
  have len: "length (removeAll f (history r)) = length (history r) - 1"
    using D(4) f by (rule length_removeAll_distinct)
  from f have pos: "0 < length (history r)" by (rule length_pos_if_in_set)
  have "curr_history_size ?r' = curr_history_size r - 1"
    by (simp add: update_node_def RemoveFromPool_def)
  then show "unat (curr_history_size ?r') = length (history ?r')"
    using unat_dec [OF D(1) pos] h' len by simp
  show "unat (curr_buffer_size ?r') = length (buffer ?r')"
    using D(2) b' by (simp add: update_node_def RemoveFromPool_def)
  show "length (history ?r') + length (buffer ?r') < 2 ^ 64"
    using D(3) len unfolding h' b' by simp
  show "distinct (history ?r')" unfolding h' using D(4) by (simp add: distinct_removeAll)
  show "distinct (buffer ?r')" unfolding b' using D(5) .
  show "set (history ?r') \<inter> set (buffer ?r') = {}" unfolding h' b' using D(6) by auto
  show "\<And>g. (g \<in> set (history ?r'))
              = (\<exists>nd. entries ?r' g = Some nd \<and> evictable nd \<and> node_value nd < lru_k ?r')"
    unfolding h' e' k' using D(7) by (auto split: option.splits)
  show "\<And>g. (g \<in> set (buffer ?r'))
              = (\<exists>nd. entries ?r' g = Some nd \<and> evictable nd \<and> lru_k ?r' \<le> node_value nd)"
    unfolding b' e' k' using D(8) fb by (auto split: option.splits)
qed

lemma unlink_buffer:
  assumes inv: "replacer_inv r" and f: "f \<in> set (buffer r)"
  shows "replacer_inv (update_node f (\<lambda>n. n\<lparr>evictable := False, node_value := 0\<rparr>)
           (RemoveFromPool f (r\<lparr>curr_buffer_size := curr_buffer_size r - 1\<rparr>)))"
    (is "replacer_inv ?r'")
proof (rule replacer_invI)
  note D = replacer_invD [OF inv]
  from f D(6) have fb: "f \<notin> set (history r)" by auto
  have b': "buffer ?r' = removeAll f (buffer r)"
    by (simp add: update_node_def RemoveFromPool_def)
  have h': "history ?r' = history r"
    using fb by (simp add: update_node_def RemoveFromPool_def removeAll_notin)
  have e': "entries ?r' = (entries r)(f := map_option (\<lambda>n. n\<lparr>evictable := False, node_value := 0\<rparr>) (entries r f))"
    by (simp add: update_node_def RemoveFromPool_def)
  have k': "lru_k ?r' = lru_k r" by (simp add: update_node_def RemoveFromPool_def)
  have len: "length (removeAll f (buffer r)) = length (buffer r) - 1"
    using D(5) f by (rule length_removeAll_distinct)
  from f have pos: "0 < length (buffer r)" by (rule length_pos_if_in_set)
  have "curr_buffer_size ?r' = curr_buffer_size r - 1"
    by (simp add: update_node_def RemoveFromPool_def)
  then show "unat (curr_buffer_size ?r') = length (buffer ?r')"
    using unat_dec [OF D(2) pos] b' len by simp
  show "unat (curr_history_size ?r') = length (history ?r')"
    using D(1) h' by (simp add: update_node_def RemoveFromPool_def)
  show "length (history ?r') + length (buffer ?r') < 2 ^ 64"
    using D(3) len unfolding h' b' by simp
  show "distinct (buffer ?r')" unfolding b' using D(5) by (simp add: distinct_removeAll)
  show "distinct (history ?r')" unfolding h' using D(4) .
  show "set (history ?r') \<inter> set (buffer ?r') = {}" unfolding h' b' using D(6) by auto
  show "\<And>g. (g \<in> set (history ?r'))
              = (\<exists>nd. entries ?r' g = Some nd \<and> evictable nd \<and> node_value nd < lru_k ?r')"
    unfolding h' e' k' using D(7) fb by (auto split: option.splits)
  show "\<And>g. (g \<in> set (buffer ?r'))
              = (\<exists>nd. entries ?r' g = Some nd \<and> evictable nd \<and> lru_k ?r' \<le> node_value nd)"
    unfolding b' e' k' using D(8) by (auto split: option.splits)
qed

lemma segment_tail_last: "xs \<noteq> [] \<Longrightarrow> segment_tail xs = Linked (last xs)"
  by (cases xs rule: rev_cases) (simp_all add: segment_tail_def)

lemma EvictInternal_inv:
  assumes inv: "replacer_inv r"
  shows "replacer_inv (snd (EvictInternal r))"
proof -
  note D = replacer_invD [OF inv]
  show ?thesis
  proof (cases "Size r = 0")
    case True
    then show ?thesis using inv by (simp add: EvictInternal_def)
  next
    case nz: False
    show ?thesis
    proof (cases "curr_history_size r = 0")
      case False
      then have "unat (curr_history_size r) \<noteq> 0" by (simp add: unat_eq_zero)
      with D(1) have ne: "history r \<noteq> []" by auto
      then have l: "last (history r) \<in> set (history r)" by simp
      have "history (r\<lparr>curr_history_size := curr_history_size r - 1\<rparr>) = history r" by simp
      show ?thesis
        using nz False unlink_history [OF inv l]
        by (simp add: EvictInternal_def evict_node_def segment_tail_last [OF ne])
    next
      case True
      with nz have "curr_buffer_size r \<noteq> 0" by (simp add: Size_def)
      then have "unat (curr_buffer_size r) \<noteq> 0" by (simp add: unat_eq_zero)
      with D(2) have ne: "buffer r \<noteq> []" by auto
      then have l: "last (buffer r) \<in> set (buffer r)" by simp
      show ?thesis
        using nz True unlink_buffer [OF inv l]
        by (simp add: EvictInternal_def evict_node_def segment_tail_last [OF ne])
    qed
  qed
qed


lemma EvictInternal_frame:
  assumes inv: "replacer_inv r" and nd: "entries r f = Some nd" and ne: "\<not> evictable nd"
  shows "entries (snd (EvictInternal r)) f = Some nd"
proof -
  note D = replacer_invD [OF inv]
  from nd ne D(7) [of f] have fh: "f \<notin> set (history r)" by auto
  from nd ne D(8) [of f] have fb: "f \<notin> set (buffer r)" by auto
  show ?thesis
  proof (cases "Size r = 0")
    case True
    then show ?thesis using nd by (simp add: EvictInternal_def)
  next
    case nz: False
    show ?thesis
    proof (cases "curr_history_size r = 0")
      case False
      then have "unat (curr_history_size r) \<noteq> 0" by (simp add: unat_eq_zero)
      with D(1) have n: "history r \<noteq> []" by auto
      then have "last (history r) \<in> set (history r)" by simp
      with fh have "last (history r) \<noteq> f" by auto
      then show ?thesis
        using nz False nd
        by (simp add: EvictInternal_def evict_node_def segment_tail_last [OF n]
              update_node_def RemoveFromPool_def)
    next
      case True
      with nz have "curr_buffer_size r \<noteq> 0" by (simp add: Size_def)
      then have "unat (curr_buffer_size r) \<noteq> 0" by (simp add: unat_eq_zero)
      with D(2) have n: "buffer r \<noteq> []" by auto
      then have "last (buffer r) \<in> set (buffer r)" by simp
      with fb have "last (buffer r) \<noteq> f" by auto
      then show ?thesis
        using nz True nd
        by (simp add: EvictInternal_def evict_node_def segment_tail_last [OF n]
              update_node_def RemoveFromPool_def)
    qed
  qed
qed

lemma values_below_update:
  assumes "values_below m r"
  shows "values_below m (update_node f (\<lambda>n. n\<lparr>evictable := False, node_value := 0\<rparr>) r)"
  using assms unfolding values_below_def update_node_def
  by (auto split: if_splits)

lemma EvictInternal_fields:
  "replacer_size (snd (EvictInternal r)) = replacer_size r"
  "lru_k (snd (EvictInternal r)) = lru_k r"
  by (simp_all add: EvictInternal_def evict_node_def update_node_def RemoveFromPool_def
        split: ring_node.splits)

lemma EvictInternal_values_below:
  assumes "values_below m r"
  shows "values_below m (snd (EvictInternal r))"
proof -
  have a: "\<And>c. values_below m (r\<lparr>curr_history_size := c\<rparr>)"
    using assms by (simp add: values_below_def)
  have b: "\<And>c. values_below m (r\<lparr>curr_buffer_size := c\<rparr>)"
    using assms by (simp add: values_below_def)
  have c: "\<And>f r. values_below m r \<Longrightarrow> values_below m (RemoveFromPool f r)"
    by (simp add: values_below_def RemoveFromPool_def)
  show ?thesis
    using assms a b
    by (auto simp: EvictInternal_def evict_node_def values_below_update c
          split: ring_node.splits)
qed

text \<open>The loop of \<^verbatim>\<open>SetEvictable\<close>.\<close>

lemma evict_while_full_facts:
  assumes run: "evict_while_full r = Some r'"
    and inv: "replacer_inv r" and vb: "values_below m r"
    and nd: "entries r f = Some nd" and ne: "\<not> evictable nd"
  shows "replacer_inv r' \<and> values_below m r' \<and> entries r' f = Some nd
         \<and> Size r' < replacer_size r' \<and> lru_k r' = lru_k r \<and> replacer_size r' = replacer_size r"
proof -
  have "replacer_inv r \<and> values_below m r \<and> entries r f = Some nd \<longrightarrow>
        replacer_inv r' \<and> values_below m r' \<and> entries r' f = Some nd
         \<and> Size r' < replacer_size r' \<and> lru_k r' = lru_k r \<and> replacer_size r' = replacer_size r"
  proof (rule evict_while_full.raw_induct
      [where P = "\<lambda>r r'. replacer_inv r \<and> values_below m r \<and> entries r f = Some nd \<longrightarrow>
        replacer_inv r' \<and> values_below m r' \<and> entries r' f = Some nd
         \<and> Size r' < replacer_size r' \<and> lru_k r' = lru_k r \<and> replacer_size r' = replacer_size r"
        and r = r and y = r', OF _ run])
    fix ewf :: "LRUKReplacer \<Rightarrow> LRUKReplacer option" and r r'
    assume IH: "\<And>r r'. ewf r = Some r' \<Longrightarrow>
        replacer_inv r \<and> values_below m r \<and> entries r f = Some nd \<longrightarrow>
        replacer_inv r' \<and> values_below m r' \<and> entries r' f = Some nd
         \<and> Size r' < replacer_size r' \<and> lru_k r' = lru_k r \<and> replacer_size r' = replacer_size r"
      and step: "(if replacer_size r \<le> Size r then ewf (snd (EvictInternal r)) else Some r) = Some r'"
    show "replacer_inv r \<and> values_below m r \<and> entries r f = Some nd \<longrightarrow>
        replacer_inv r' \<and> values_below m r' \<and> entries r' f = Some nd
         \<and> Size r' < replacer_size r' \<and> lru_k r' = lru_k r \<and> replacer_size r' = replacer_size r"
    proof
      assume a: "replacer_inv r \<and> values_below m r \<and> entries r f = Some nd"
      show "replacer_inv r' \<and> values_below m r' \<and> entries r' f = Some nd
         \<and> Size r' < replacer_size r' \<and> lru_k r' = lru_k r \<and> replacer_size r' = replacer_size r"
      proof (cases "replacer_size r \<le> Size r")
        case False
        with step have "r' = r" by simp
        with a False show ?thesis by (simp add: not_le)
      next
        case True
        with step have s: "ewf (snd (EvictInternal r)) = Some r'" by simp
        from a have i1: "replacer_inv (snd (EvictInternal r))" by (simp add: EvictInternal_inv)
        from a have v1: "values_below m (snd (EvictInternal r))"
          by (simp add: EvictInternal_values_below)
        from a ne have e1: "entries (snd (EvictInternal r)) f = Some nd"
          by (simp add: EvictInternal_frame)
        from IH [OF s] i1 v1 e1
        have "replacer_inv r' \<and> values_below m r' \<and> entries r' f = Some nd
           \<and> Size r' < replacer_size r' \<and> lru_k r' = lru_k (snd (EvictInternal r))
           \<and> replacer_size r' = replacer_size (snd (EvictInternal r))" by blast
        then show ?thesis unfolding EvictInternal_fields .
      qed
    qed
  qed
  with inv vb nd show ?thesis by blast
qed


lemma link_history:
  assumes inv: "replacer_inv r" and nd: "entries r f = Some nd" and ne: "\<not> evictable nd"
    and v: "\<not> lru_k r \<le> node_value nd" and sz: "Size r < replacer_size r"
  shows "replacer_inv ((PushFrontHistoryPool f (update_node f (\<lambda>n. n\<lparr>evictable := True\<rparr>) r))
           \<lparr>curr_history_size := curr_history_size (update_node f (\<lambda>n. n\<lparr>evictable := True\<rparr>) r) + 1\<rparr>)"
    (is "replacer_inv ?r'")
proof (rule replacer_invI)
  note D = replacer_invD [OF inv]
  from nd ne D(7) [of f] have fh: "f \<notin> set (history r)" by auto
  from nd ne D(8) [of f] have fb: "f \<notin> set (buffer r)" by auto
  have h': "history ?r' = f # history r" by (simp add: update_node_def PushFrontHistoryPool_def)
  have b': "buffer ?r' = buffer r" by (simp add: update_node_def PushFrontHistoryPool_def)
  have e': "entries ?r' = (entries r)(f \<mapsto> nd\<lparr>evictable := True\<rparr>)"
    using nd by (simp add: update_node_def PushFrontHistoryPool_def)
  have k': "lru_k ?r' = lru_k r" by (simp add: update_node_def PushFrontHistoryPool_def)
  have c': "curr_history_size ?r' = curr_history_size r + 1"
    by (simp add: update_node_def PushFrontHistoryPool_def)
  have "unat (Size r) < unat (replacer_size r)" using sz by (simp add: word_less_nat_alt)
  moreover have "unat (replacer_size r) < 2 ^ 64" using unsigned_less [of "replacer_size r"] by simp
  ultimately have bound: "Suc (length (history r) + length (buffer r)) < 2 ^ 64"
    using Size_unat [OF inv] by simp
  then have "Suc (length (history r)) < 2 ^ 64" by simp
  from unat_inc [OF D(1) this] show "unat (curr_history_size ?r') = length (history ?r')"
    unfolding c' h' by simp
  show "unat (curr_buffer_size ?r') = length (buffer ?r')"
    using D(2) by (simp add: update_node_def PushFrontHistoryPool_def)
  show "length (history ?r') + length (buffer ?r') < 2 ^ 64" unfolding h' b' using bound by simp
  show "distinct (history ?r')" unfolding h' using D(4) fh by simp
  show "distinct (buffer ?r')" unfolding b' using D(5) .
  show "set (history ?r') \<inter> set (buffer ?r') = {}" unfolding h' b' using D(6) fb by auto
  show "\<And>g. (g \<in> set (history ?r'))
              = (\<exists>nd. entries ?r' g = Some nd \<and> evictable nd \<and> node_value nd < lru_k ?r')"
    unfolding h' e' k' using D(7) v by (auto simp: not_le)
  show "\<And>g. (g \<in> set (buffer ?r'))
              = (\<exists>nd. entries ?r' g = Some nd \<and> evictable nd \<and> lru_k ?r' \<le> node_value nd)"
    unfolding b' e' k' using D(8) fb v by auto
qed

lemma link_buffer:
  assumes inv: "replacer_inv r" and nd: "entries r f = Some nd" and ne: "\<not> evictable nd"
    and v: "lru_k r \<le> node_value nd" and sz: "Size r < replacer_size r"
  shows "replacer_inv ((PushFrontBufferPool f (update_node f (\<lambda>n. n\<lparr>evictable := True\<rparr>) r))
           \<lparr>curr_buffer_size := curr_buffer_size (update_node f (\<lambda>n. n\<lparr>evictable := True\<rparr>) r) + 1\<rparr>)"
    (is "replacer_inv ?r'")
proof (rule replacer_invI)
  note D = replacer_invD [OF inv]
  from nd ne D(7) [of f] have fh: "f \<notin> set (history r)" by auto
  from nd ne D(8) [of f] have fb: "f \<notin> set (buffer r)" by auto
  have b': "buffer ?r' = f # buffer r" by (simp add: update_node_def PushFrontBufferPool_def)
  have h': "history ?r' = history r" by (simp add: update_node_def PushFrontBufferPool_def)
  have e': "entries ?r' = (entries r)(f \<mapsto> nd\<lparr>evictable := True\<rparr>)"
    using nd by (simp add: update_node_def PushFrontBufferPool_def)
  have k': "lru_k ?r' = lru_k r" by (simp add: update_node_def PushFrontBufferPool_def)
  have c': "curr_buffer_size ?r' = curr_buffer_size r + 1"
    by (simp add: update_node_def PushFrontBufferPool_def)
  have "unat (Size r) < unat (replacer_size r)" using sz by (simp add: word_less_nat_alt)
  moreover have "unat (replacer_size r) < 2 ^ 64" using unsigned_less [of "replacer_size r"] by simp
  ultimately have bound: "Suc (length (history r) + length (buffer r)) < 2 ^ 64"
    using Size_unat [OF inv] by simp
  then have "Suc (length (buffer r)) < 2 ^ 64" by simp
  from unat_inc [OF D(2) this] show "unat (curr_buffer_size ?r') = length (buffer ?r')"
    unfolding c' b' by simp
  show "unat (curr_history_size ?r') = length (history ?r')"
    using D(1) by (simp add: update_node_def PushFrontBufferPool_def)
  show "length (history ?r') + length (buffer ?r') < 2 ^ 64" unfolding h' b' using bound by simp
  show "distinct (buffer ?r')" unfolding b' using D(5) fb by simp
  show "distinct (history ?r')" unfolding h' using D(4) .
  show "set (history ?r') \<inter> set (buffer ?r') = {}" unfolding h' b' using D(6) fh by auto
  show "\<And>g. (g \<in> set (history ?r'))
              = (\<exists>nd. entries ?r' g = Some nd \<and> evictable nd \<and> node_value nd < lru_k ?r')"
    unfolding h' e' k' using D(7) fh v by (auto simp: not_less)
  show "\<And>g. (g \<in> set (buffer ?r'))
              = (\<exists>nd. entries ?r' g = Some nd \<and> evictable nd \<and> lru_k ?r' \<le> node_value nd)"
    unfolding b' e' k' using D(8) v by auto
qed

lemma values_below_fields:
  "values_below m (r\<lparr>curr_history_size := c\<rparr>) = values_below m r"
  "values_below m (r\<lparr>curr_buffer_size := c\<rparr>) = values_below m r"
  "values_below m (RemoveFromPool f r) = values_below m r"
  "values_below m (PushFrontHistoryPool f r) = values_below m r"
  "values_below m (PushFrontBufferPool f r) = values_below m r"
  by (simp_all add: values_below_def RemoveFromPool_def PushFrontHistoryPool_def
        PushFrontBufferPool_def)

lemma values_below_set_evictable:
  assumes "values_below m r"
  shows "values_below m (update_node f (\<lambda>n. n\<lparr>evictable := b\<rparr>) r)"
  using assms unfolding values_below_def update_node_def
  by (auto split: if_splits)

lemma SetEvictable_inv:
  assumes inv: "replacer_inv r" and vb: "values_below m r"
    and run: "SetEvictable f b r = Some r'"
  shows "replacer_inv r' \<and> values_below m r'"
proof (cases "entries r f")
  case None
  with run have "r' = r" by (simp add: SetEvictable_def)
  with inv vb show ?thesis by simp
next
  case (Some nd)
  note D = replacer_invD [OF inv]
  consider (off) "evictable nd" "\<not> b" | (on) "\<not> evictable nd" "b"
    | (same) "evictable nd = b" by auto
  then show ?thesis
  proof cases
    case off
    show ?thesis
    proof (cases "lru_k r \<le> node_value nd")
      case True
      with Some off D(8) [of f] have "f \<in> set (buffer r)" by auto
      from unlink_buffer [OF inv this] run Some off True vb
      show ?thesis
        by (auto simp: SetEvictable_def values_below_update values_below_fields)
    next
      case False
      with Some off D(7) [of f] have "f \<in> set (history r)" by (auto simp: not_le)
      from unlink_history [OF inv this] run Some off False vb
      show ?thesis
        by (auto simp: SetEvictable_def values_below_update values_below_fields)
    qed
  next
    case on
    from run Some on obtain r1 where l: "evict_while_full r = Some r1"
      by (auto simp: SetEvictable_def split: option.splits)
    note F = evict_while_full_facts [OF l inv vb Some on(1)]
    from F have i1: "replacer_inv r1" and v1: "values_below m r1"
      and e1: "entries r1 f = Some nd" and s1: "Size r1 < replacer_size r1"
      and k1: "lru_k r1 = lru_k r" by blast+
    have k2: "lru_k (update_node f (\<lambda>n. n\<lparr>evictable := True\<rparr>) r1) = lru_k r"
      using k1 by (simp add: update_node_def)
    show ?thesis
    proof (cases "lru_k r \<le> node_value nd")
      case True
      then have t: "lru_k r1 \<le> node_value nd" using k1 by simp
      from run Some on l e1 True k2
      have r': "r' = (PushFrontBufferPool f (update_node f (\<lambda>n. n\<lparr>evictable := True\<rparr>) r1))
           \<lparr>curr_buffer_size := curr_buffer_size (update_node f (\<lambda>n. n\<lparr>evictable := True\<rparr>) r1) + 1\<rparr>"
        by (simp add: SetEvictable_def Let_def)
      from link_buffer [OF i1 e1 on(1) t s1] v1 show ?thesis
        unfolding r' by (simp add: values_below_fields values_below_set_evictable)
    next
      case False
      then have t: "\<not> lru_k r1 \<le> node_value nd" using k1 by simp
      from run Some on l e1 False k2
      have r': "r' = (PushFrontHistoryPool f (update_node f (\<lambda>n. n\<lparr>evictable := True\<rparr>) r1))
           \<lparr>curr_history_size := curr_history_size (update_node f (\<lambda>n. n\<lparr>evictable := True\<rparr>) r1) + 1\<rparr>"
        by (simp add: SetEvictable_def Let_def)
      from link_history [OF i1 e1 on(1) t s1] v1 show ?thesis
        unfolding r' by (simp add: values_below_fields values_below_set_evictable)
    qed
  next
    case same
    with run Some have "r' = r" by (auto simp: SetEvictable_def)
    with inv vb show ?thesis by simp
  qed
qed


lemma erase_inv:
  assumes inv: "replacer_inv r" and ne: "\<forall>nd. entries r f = Some nd \<longrightarrow> \<not> evictable nd"
  shows "replacer_inv (r\<lparr>entries := (entries r)(f := None)\<rparr>)"
proof (rule replacer_invI)
  note D = replacer_invD [OF inv]
  from ne D(7) [of f] have fh: "f \<notin> set (history r)" by auto
  from ne D(8) [of f] have fb: "f \<notin> set (buffer r)" by auto
  show "\<And>g. (g \<in> set (history (r\<lparr>entries := (entries r)(f := None)\<rparr>)))
         = (\<exists>nd. entries (r\<lparr>entries := (entries r)(f := None)\<rparr>) g = Some nd \<and> evictable nd
              \<and> node_value nd < lru_k (r\<lparr>entries := (entries r)(f := None)\<rparr>))"
    using D(7) fh by auto
  show "\<And>g. (g \<in> set (buffer (r\<lparr>entries := (entries r)(f := None)\<rparr>)))
         = (\<exists>nd. entries (r\<lparr>entries := (entries r)(f := None)\<rparr>) g = Some nd \<and> evictable nd
              \<and> lru_k (r\<lparr>entries := (entries r)(f := None)\<rparr>) \<le> node_value nd)"
    using D(8) fb by auto
qed (use replacer_invD [OF inv] in simp_all)

lemma values_below_erase:
  "values_below m r \<Longrightarrow> values_below m (r\<lparr>entries := (entries r)(f := None)\<rparr>)"
  by (simp add: values_below_def)

lemma update_node_off:
  "\<forall>n. entries (update_node f (\<lambda>n. n\<lparr>evictable := False, node_value := 0\<rparr>) r) f = Some n
        \<longrightarrow> \<not> evictable n"
  by (auto simp: update_node_def)

lemma Remove_inv:
  assumes inv: "replacer_inv r" and vb: "values_below m r"
  shows "replacer_inv (Remove f r) \<and> values_below m (Remove f r)"
proof (cases "entries r f")
  case None
  with inv vb show ?thesis by (simp add: Remove_def)
next
  case (Some nd)
  note D = replacer_invD [OF inv]
  show ?thesis
  proof (cases "evictable nd")
    case False
    with Some have "\<forall>n. entries r f = Some n \<longrightarrow> \<not> evictable n" by simp
    from erase_inv [OF inv this] vb Some False show ?thesis
      by (simp add: Remove_def values_below_erase)
  next
    case ev: True
    show ?thesis
    proof (cases "lru_k r \<le> node_value nd")
      case True
      with Some ev D(8) [of f] have "f \<in> set (buffer r)" by auto
      from erase_inv [OF unlink_buffer [OF inv this] update_node_off] vb Some ev True
      show ?thesis
        by (simp add: Remove_def Let_def values_below_erase values_below_update values_below_fields)
    next
      case False
      with Some ev D(7) [of f] have "f \<in> set (history r)" by (auto simp: not_le)
      from erase_inv [OF unlink_history [OF inv this] update_node_off] vb Some ev False
      show ?thesis
        by (simp add: Remove_def Let_def values_below_erase values_below_update values_below_fields)
    qed
  qed
qed

lemma Evict_inv:
  assumes inv: "replacer_inv r" and vb: "values_below m r"
  shows "replacer_inv (snd (Evict r)) \<and> values_below m (snd (Evict r))"
  using EvictInternal_inv [OF inv] EvictInternal_values_below [OF vb] by (simp add: Evict_def)

lemma values_below_mono: "values_below m r \<Longrightarrow> m \<le> n \<Longrightarrow> values_below n r"
  unfolding values_below_def by (meson le_trans)

lemma RecordAccess_values_below:
  assumes vb: "values_below m r" and m: "Suc m < 2 ^ 64"
  shows "values_below (Suc m) (RecordAccess f r)"
proof (cases "entries r f")
  case None
  have "unat (1 :: 64 word) \<le> Suc m" by simp
  with None vb show ?thesis
    unfolding values_below_def RecordAccess_def by (auto split: if_splits intro: le_SucI)
next
  case (Some nd)
  from vb Some have le: "unat (node_value nd) \<le> m" by (simp add: values_below_def)
  with m have "Suc (unat (node_value nd)) < 2 ^ 64" by simp
  from unat_inc [OF refl this] le have v: "unat (node_value nd + 1) \<le> Suc m" by simp
  have e: "entries (RecordAccess f r) = (entries r)(f \<mapsto> nd\<lparr>node_value := node_value nd + 1\<rparr>)"
    using Some
    by (simp add: RecordAccess_def Let_def PushFrontBufferPool_def RemoveFromPool_def)
  show ?thesis
    unfolding values_below_def e using vb v
    by (auto simp: values_below_def le_Suc_eq)
qed


lemma RecordAccess_fields:
  "lru_k (RecordAccess f r) = lru_k r"
  "replacer_size (RecordAccess f r) = replacer_size r"
  by (simp_all add: RecordAccess_def Let_def PushFrontBufferPool_def RemoveFromPool_def
        split: option.splits)

lemma RecordAccess_inv:
  assumes inv: "replacer_inv r" and vb: "values_below m r" and m: "Suc m < 2 ^ 64"
  shows "replacer_inv (RecordAccess f r)"
proof (cases "entries r f")
  case None
  note D = replacer_invD [OF inv]
  from None D(7) [of f] have fh: "f \<notin> set (history r)" by auto
  from None D(8) [of f] have fb: "f \<notin> set (buffer r)" by auto
  have r': "RecordAccess f r
            = r\<lparr>entries := (entries r)(f \<mapsto> \<lparr>node_key = f, node_value = 1, evictable = False\<rparr>)\<rparr>"
    using None by (simp add: RecordAccess_def)
  show ?thesis unfolding r'
  proof (rule replacer_invI)
    show "\<And>g. (g \<in> set (history (r\<lparr>entries := (entries r)(f \<mapsto> \<lparr>node_key = f, node_value = 1, evictable = False\<rparr>)\<rparr>)))
         = (\<exists>nd. entries (r\<lparr>entries := (entries r)(f \<mapsto> \<lparr>node_key = f, node_value = 1, evictable = False\<rparr>)\<rparr>) g = Some nd \<and> evictable nd
              \<and> node_value nd < lru_k (r\<lparr>entries := (entries r)(f \<mapsto> \<lparr>node_key = f, node_value = 1, evictable = False\<rparr>)\<rparr>))"
      using D(7) fh by auto
    show "\<And>g. (g \<in> set (buffer (r\<lparr>entries := (entries r)(f \<mapsto> \<lparr>node_key = f, node_value = 1, evictable = False\<rparr>)\<rparr>)))
         = (\<exists>nd. entries (r\<lparr>entries := (entries r)(f \<mapsto> \<lparr>node_key = f, node_value = 1, evictable = False\<rparr>)\<rparr>) g = Some nd \<and> evictable nd
              \<and> lru_k (r\<lparr>entries := (entries r)(f \<mapsto> \<lparr>node_key = f, node_value = 1, evictable = False\<rparr>)\<rparr>) \<le> node_value nd)"
      using D(8) fb by auto
  qed (use D in simp_all)
next
  case (Some nd)
  note D = replacer_invD [OF inv]
  from vb Some have le: "unat (node_value nd) \<le> m" by (simp add: values_below_def)
  with m have "Suc (unat (node_value nd)) < 2 ^ 64" by simp
  from unat_inc [OF refl this] have v: "unat (node_value nd + 1) = Suc (unat (node_value nd))" .
  then have lt: "node_value nd < node_value nd + 1" by (simp add: word_less_nat_alt)
  have e': "entries (RecordAccess f r) = (entries r)(f \<mapsto> nd\<lparr>node_value := node_value nd + 1\<rparr>)"
    using Some
    by (simp add: RecordAccess_def Let_def PushFrontBufferPool_def RemoveFromPool_def)
  note k' = RecordAccess_fields(1) [of f r]
  consider (promote) "evictable nd" "node_value nd + 1 = lru_k r"
    | (again) "evictable nd" "lru_k r < node_value nd + 1"
    | (young) "evictable nd" "node_value nd + 1 < lru_k r"
    | (pinned) "\<not> evictable nd"
    using less_linear [of "node_value nd + 1" "lru_k r"] by (cases "evictable nd") auto
  then show ?thesis
  proof cases
    case promote
    from promote lt have "node_value nd < lru_k r" by simp
    with Some promote D(7) [of f] have fh: "f \<in> set (history r)" by auto
    with D(6) have fb: "f \<notin> set (buffer r)" by auto
    have h': "history (RecordAccess f r) = removeAll f (history r)"
      using Some promote
      by (simp add: RecordAccess_def Let_def PushFrontBufferPool_def RemoveFromPool_def)
    have b': "buffer (RecordAccess f r) = f # buffer r"
      using Some promote fb
      by (simp add: RecordAccess_def Let_def PushFrontBufferPool_def RemoveFromPool_def
            removeAll_notin)
    have ch: "curr_history_size (RecordAccess f r) = curr_history_size r - 1"
      using Some promote
      by (simp add: RecordAccess_def Let_def PushFrontBufferPool_def RemoveFromPool_def)
    have cb: "curr_buffer_size (RecordAccess f r) = curr_buffer_size r + 1"
      using Some promote
      by (simp add: RecordAccess_def Let_def PushFrontBufferPool_def RemoveFromPool_def)
    have len: "length (removeAll f (history r)) = length (history r) - 1"
      using D(4) fh by (rule length_removeAll_distinct)
    from fh have pos: "0 < length (history r)" by (rule length_pos_if_in_set)
    from pos D(3) have bnd: "Suc (length (buffer r)) < 2 ^ 64" by linarith
    show ?thesis
    proof (rule replacer_invI)
      show "unat (curr_history_size (RecordAccess f r)) = length (history (RecordAccess f r))"
        unfolding ch h' len using unat_dec [OF D(1) pos] .
      show "unat (curr_buffer_size (RecordAccess f r)) = length (buffer (RecordAccess f r))"
        unfolding cb b' using unat_inc [OF D(2) bnd] by simp
      show "length (history (RecordAccess f r)) + length (buffer (RecordAccess f r)) < 2 ^ 64"
      proof -
        from pos have "length (history r) - 1 + Suc (length (buffer r))
                         = length (history r) + length (buffer r)" by linarith
        with D(3) show ?thesis unfolding h' b' len by simp
      qed
      show "distinct (history (RecordAccess f r))" unfolding h' using D(4) by (simp add: distinct_removeAll)
      show "distinct (buffer (RecordAccess f r))" unfolding b' using D(5) fb by simp
      show "set (history (RecordAccess f r)) \<inter> set (buffer (RecordAccess f r)) = {}"
        unfolding h' b' using D(6) by auto
      show "\<And>g. (g \<in> set (history (RecordAccess f r)))
            = (\<exists>nd. entries (RecordAccess f r) g = Some nd \<and> evictable nd
                 \<and> node_value nd < lru_k (RecordAccess f r))"
        unfolding h' e' k' using D(7) promote by auto
      show "\<And>g. (g \<in> set (buffer (RecordAccess f r)))
            = (\<exists>nd. entries (RecordAccess f r) g = Some nd \<and> evictable nd
                 \<and> lru_k (RecordAccess f r) \<le> node_value nd)"
        unfolding b' e' k' using D(8) fb promote by auto
    qed
  next
    case again
    from again(2) v have "unat (lru_k r) < Suc (unat (node_value nd))"
      by (simp add: word_less_nat_alt)
    then have kv: "lru_k r \<le> node_value nd" by (simp add: word_le_nat_alt)
    with Some again D(8) [of f] have fb: "f \<in> set (buffer r)" by auto
    with D(6) have fh: "f \<notin> set (history r)" by auto
    from again(2) have ne: "node_value nd + 1 \<noteq> lru_k r" and ge: "lru_k r \<le> node_value nd + 1"
      by auto
    have h': "history (RecordAccess f r) = history r"
      using Some again(1) ne ge fh
      by (simp add: RecordAccess_def Let_def PushFrontBufferPool_def RemoveFromPool_def
            removeAll_notin)
    have b': "buffer (RecordAccess f r) = f # removeAll f (buffer r)"
      using Some again(1) ne ge
      by (simp add: RecordAccess_def Let_def PushFrontBufferPool_def RemoveFromPool_def)
    have ch: "curr_history_size (RecordAccess f r) = curr_history_size r"
      using Some again(1) ne ge
      by (simp add: RecordAccess_def Let_def PushFrontBufferPool_def RemoveFromPool_def)
    have cb: "curr_buffer_size (RecordAccess f r) = curr_buffer_size r"
      using Some again(1) ne ge
      by (simp add: RecordAccess_def Let_def PushFrontBufferPool_def RemoveFromPool_def)
    have len: "length (removeAll f (buffer r)) = length (buffer r) - 1"
      using D(5) fb by (rule length_removeAll_distinct)
    from fb have pos: "0 < length (buffer r)" by (rule length_pos_if_in_set)
    show ?thesis
    proof (rule replacer_invI)
      show "unat (curr_history_size (RecordAccess f r)) = length (history (RecordAccess f r))"
        unfolding ch h' using D(1) .
      from pos have suc: "Suc (length (buffer r) - 1) = length (buffer r)" by linarith
      show "unat (curr_buffer_size (RecordAccess f r)) = length (buffer (RecordAccess f r))"
        unfolding cb b' using D(2) len suc by simp
      show "length (history (RecordAccess f r)) + length (buffer (RecordAccess f r)) < 2 ^ 64"
        unfolding h' b' using D(3) len suc by simp
      show "distinct (history (RecordAccess f r))" unfolding h' using D(4) .
      show "distinct (buffer (RecordAccess f r))" unfolding b' using D(5) by (simp add: distinct_removeAll)
      show "set (history (RecordAccess f r)) \<inter> set (buffer (RecordAccess f r)) = {}"
        unfolding h' b' using D(6) fh by auto
      show "\<And>g. (g \<in> set (history (RecordAccess f r)))
            = (\<exists>nd. entries (RecordAccess f r) g = Some nd \<and> evictable nd
                 \<and> node_value nd < lru_k (RecordAccess f r))"
        unfolding h' e' k' using D(7) fh ge by (auto simp: not_less)
      show "\<And>g. (g \<in> set (buffer (RecordAccess f r)))
            = (\<exists>nd. entries (RecordAccess f r) g = Some nd \<and> evictable nd
                 \<and> lru_k (RecordAccess f r) \<le> node_value nd)"
        unfolding b' e' k' using D(8) again(1) ge by auto
    qed
  next
    case young
    from young(2) lt have "node_value nd < lru_k r" by simp
    with Some young D(7) [of f] have fh: "f \<in> set (history r)" by auto
    with D(6) have fb: "f \<notin> set (buffer r)" by auto
    from young(2) have nge: "\<not> lru_k r \<le> node_value nd + 1" by (simp add: not_le)
    have r': "RecordAccess f r = r\<lparr>entries := (entries r)(f \<mapsto> nd\<lparr>node_value := node_value nd + 1\<rparr>)\<rparr>"
      using Some nge by (simp add: RecordAccess_def Let_def)
    show ?thesis unfolding r'
    proof (rule replacer_invI)
      show "\<And>g. (g \<in> set (history (r\<lparr>entries := (entries r)(f \<mapsto> nd\<lparr>node_value := node_value nd + 1\<rparr>)\<rparr>)))
         = (\<exists>n. entries (r\<lparr>entries := (entries r)(f \<mapsto> nd\<lparr>node_value := node_value nd + 1\<rparr>)\<rparr>) g = Some n \<and> evictable n
              \<and> node_value n < lru_k (r\<lparr>entries := (entries r)(f \<mapsto> nd\<lparr>node_value := node_value nd + 1\<rparr>)\<rparr>))"
        using D(7) fh young by auto
      show "\<And>g. (g \<in> set (buffer (r\<lparr>entries := (entries r)(f \<mapsto> nd\<lparr>node_value := node_value nd + 1\<rparr>)\<rparr>)))
         = (\<exists>n. entries (r\<lparr>entries := (entries r)(f \<mapsto> nd\<lparr>node_value := node_value nd + 1\<rparr>)\<rparr>) g = Some n \<and> evictable n
              \<and> lru_k (r\<lparr>entries := (entries r)(f \<mapsto> nd\<lparr>node_value := node_value nd + 1\<rparr>)\<rparr>) \<le> node_value n)"
        using D(8) fb nge by auto
    qed (use D in simp_all)
  next
    case pinned
    with Some D(7) [of f] have fh: "f \<notin> set (history r)" by auto
    from pinned Some D(8) [of f] have fb: "f \<notin> set (buffer r)" by auto
    have r': "RecordAccess f r = r\<lparr>entries := (entries r)(f \<mapsto> nd\<lparr>node_value := node_value nd + 1\<rparr>)\<rparr>"
      using Some pinned by (simp add: RecordAccess_def Let_def)
    show ?thesis unfolding r'
    proof (rule replacer_invI)
      show "\<And>g. (g \<in> set (history (r\<lparr>entries := (entries r)(f \<mapsto> nd\<lparr>node_value := node_value nd + 1\<rparr>)\<rparr>)))
         = (\<exists>n. entries (r\<lparr>entries := (entries r)(f \<mapsto> nd\<lparr>node_value := node_value nd + 1\<rparr>)\<rparr>) g = Some n \<and> evictable n
              \<and> node_value n < lru_k (r\<lparr>entries := (entries r)(f \<mapsto> nd\<lparr>node_value := node_value nd + 1\<rparr>)\<rparr>))"
        using D(7) fh pinned by auto
      show "\<And>g. (g \<in> set (buffer (r\<lparr>entries := (entries r)(f \<mapsto> nd\<lparr>node_value := node_value nd + 1\<rparr>)\<rparr>)))
         = (\<exists>n. entries (r\<lparr>entries := (entries r)(f \<mapsto> nd\<lparr>node_value := node_value nd + 1\<rparr>)\<rparr>) g = Some n \<and> evictable n
              \<and> lru_k (r\<lparr>entries := (entries r)(f \<mapsto> nd\<lparr>node_value := node_value nd + 1\<rparr>)\<rparr>) \<le> node_value n)"
        using D(8) fb pinned by auto
    qed (use D in simp_all)
  qed
qed

text \<open>Runs.\<close>

lemma replacer_step_inv:
  assumes inv: "replacer_inv r" and vb: "values_below m r" and m: "Suc m < 2 ^ 64"
    and step: "replacer_step x r = Some r'"
  shows "replacer_inv r' \<and> values_below (Suc m) r'"
proof (cases x)
  case (OpRecordAccess f)
  with step have "r' = RecordAccess f r" by simp
  with RecordAccess_inv [OF inv vb m] RecordAccess_values_below [OF vb m] show ?thesis by simp
next
  case (OpSetEvictable f b)
  with step have "SetEvictable f b r = Some r'" by simp
  from SetEvictable_inv [OF inv vb this]
  have "replacer_inv r'" and "values_below m r'" by simp_all
  then show ?thesis using values_below_mono [of m r' "Suc m"] by simp
next
  case (OpRemove f)
  with step have r': "r' = Remove f r" by simp
  from Remove_inv [OF inv vb, of f]
  have "replacer_inv r'" and "values_below m r'" unfolding r' by simp_all
  then show ?thesis using values_below_mono [of m r' "Suc m"] by simp
next
  case OpEvict
  with step have r': "r' = snd (Evict r)" by simp
  from Evict_inv [OF inv vb]
  have "replacer_inv r'" and "values_below m r'" unfolding r' by simp_all
  then show ?thesis using values_below_mono [of m r' "Suc m"] by simp
qed

lemma replacer_run_inv:
  assumes "replacer_run xs r = Some r'" and "replacer_inv r" and "values_below m r"
    and "m + length xs < 2 ^ 64"
  shows "replacer_inv r' \<and> values_below (m + length xs) r'"
  using assms
proof (induction xs arbitrary: r m)
  case Nil
  then show ?case by simp
next
  case (Cons x xs)
  from Cons.prems(1) obtain r1 where s: "replacer_step x r = Some r1"
    and run: "replacer_run xs r1 = Some r'"
    by (auto split: option.splits)
  from Cons.prems(4) have m: "Suc m < 2 ^ 64" by simp
  from replacer_step_inv [OF Cons.prems(2,3) m s]
  have i1: "replacer_inv r1" and v1: "values_below (Suc m) r1" by simp_all
  from Cons.prems(4) have "Suc m + length xs < 2 ^ 64" by simp
  from Cons.IH [OF run i1 v1 this] show ?case by simp
qed

lemma values_below_new: "values_below 0 (LRUKReplacer_new n kk)"
  by (simp add: values_below_def LRUKReplacer_new_def)

lemma replacer_inv_reachable:
  assumes "replacer_run xs (LRUKReplacer_new n kk) = Some r" and "length xs < 2 ^ 64"
  shows "replacer_inv r"
  using replacer_run_inv [OF assms(1) replacer_inv_new values_below_new] assms(2) by simp


text \<open>What the invariant gives: \<^verbatim>\<open>Size()\<close> counts the evictable frames, and a successful
  \<^verbatim>\<open>Evict\<close> reports an evictable frame, the last of the history list when there is one,
  else the last of the buffer list.\<close>

lemma Size_counts_evictable:
  assumes inv: "replacer_inv r"
  shows "unat (Size r) = card {f. \<exists>nd. entries r f = Some nd \<and> evictable nd}"
proof -
  note D = replacer_invD [OF inv]
  have "{f. \<exists>nd. entries r f = Some nd \<and> evictable nd} = set (history r) \<union> set (buffer r)"
    using D(7) D(8) by (auto simp: not_le [symmetric])
  moreover have "card (set (history r) \<union> set (buffer r)) = length (history r) + length (buffer r)"
    using D(4) D(5) D(6) by (simp add: card_Un_disjoint distinct_card)
  ultimately show ?thesis using Size_unat [OF inv] by simp
qed

lemma Evict_victim:
  assumes inv: "replacer_inv r" and ev: "Evict r = (Some f, r')"
  shows "(\<exists>nd. entries r f = Some nd \<and> evictable nd)
         \<and> f = (if history r \<noteq> [] then last (history r) else last (buffer r))"
proof -
  note D = replacer_invD [OF inv]
  from ev have nz: "Size r \<noteq> 0" by (auto simp: Evict_def EvictInternal_def split: if_splits)
  show ?thesis
  proof (cases "curr_history_size r = 0")
    case False
    then have "unat (curr_history_size r) \<noteq> 0" by (simp add: unat_eq_zero)
    with D(1) have ne: "history r \<noteq> []" by auto
    then have l: "last (history r) \<in> set (history r)" by simp
    from ev nz False have "f = last (history r)"
      by (simp add: Evict_def EvictInternal_def evict_node_def segment_tail_last [OF ne])
    with l ne D(7) [of f] show ?thesis by auto
  next
    case True
    with D(1) have e: "history r = []" by simp
    from True nz have "curr_buffer_size r \<noteq> 0" by (simp add: Size_def)
    then have "unat (curr_buffer_size r) \<noteq> 0" by (simp add: unat_eq_zero)
    with D(2) have ne: "buffer r \<noteq> []" by auto
    then have l: "last (buffer r) \<in> set (buffer r)" by simp
    from ev nz True have "f = last (buffer r)"
      by (simp add: Evict_def EvictInternal_def evict_node_def segment_tail_last [OF ne])
    with l e D(8) [of f] show ?thesis by auto
  qed
qed

subsection \<open>Claims on the replacer\<close>

text \<open>
  C10. \<^verbatim>\<open>LRUKReplacer::Remove\<close> on a frame that is tracked and not evictable returns
  normally (the model's \<open>Remove\<close> is a total function with no failure value): it erases
  the frame's node and nothing else, so \<^verbatim>\<open>Size()\<close> is what it was, and a
  \<^verbatim>\<open>RecordAccess\<close> of that frame afterwards creates a new node with count 1.
\<close>

theorem C10_remove_non_evictable:
  assumes "entries r f = Some nd" and "\<not> evictable nd"
  shows "Remove f r = r\<lparr>entries := (entries r)(f := None)\<rparr>
       \<and> Size (Remove f r) = Size r
       \<and> entries (Remove f r) f = None
       \<and> entries (RecordAccess f (Remove f r)) f
           = Some \<lparr>node_key = f, node_value = 1, evictable = False\<rparr>"
proof -
  have eq: "Remove f r = r\<lparr>entries := (entries r)(f := None)\<rparr>"
    using assms by (simp add: Remove_def)
  have sz: "Size (Remove f r) = Size r"
    by (simp add: eq Size_def)
  have gone: "entries (Remove f r) f = None"
    by (simp add: eq)
  have again: "entries (RecordAccess f (Remove f r)) f
                 = Some \<lparr>node_key = f, node_value = 1, evictable = False\<rparr>"
    using gone by (simp add: RecordAccess_def)
  from eq sz gone again show ?thesis by simp
qed

theorem C10_remove_non_evictable_witness:
  "entries (RecordAccess 3 (RecordAccess 3 (LRUKReplacer_new 7 2))) 3
      = Some \<lparr>node_key = 3, node_value = 2, evictable = False\<rparr>
   \<and> Size (Remove 3 (RecordAccess 3 (RecordAccess 3 (LRUKReplacer_new 7 2))))
      = Size (RecordAccess 3 (RecordAccess 3 (LRUKReplacer_new 7 2)))
   \<and> entries (RecordAccess 3 (Remove 3 (RecordAccess 3 (RecordAccess 3 (LRUKReplacer_new 7 2))))) 3
      = Some \<lparr>node_key = 3, node_value = 1, evictable = False\<rparr>"
proof -
  let ?r = "RecordAccess 3 (RecordAccess 3 (LRUKReplacer_new 7 2))"
  have e: "entries ?r 3 = Some \<lparr>node_key = 3, node_value = 2, evictable = False\<rparr>"
    by (simp add: RecordAccess_def LRUKReplacer_new_def)
  have n: "\<not> evictable \<lparr>node_key = 3, node_value = 2, evictable = False\<rparr>"
    by simp
  from C10_remove_non_evictable [OF e n] e show ?thesis by blast
qed

text \<open>
  C5 (the code departs from the claim). With \<open>K = 2\<close>: frames 1 and 2 are accessed once
  each, frame 1 first, and made evictable, frame 2 first; \<^verbatim>\<open>Evict\<close> returns frame 2,
  although both have fewer than \<open>K\<close> accesses and frame 1 has the earliest access.
  And: frames 1 and 2 are accessed once each and made evictable, then frame 2 and then
  frame 1 are accessed again; the \<open>K\<close>-th most recent access of frame 1 is the earliest,
  yet \<^verbatim>\<open>Evict\<close> returns frame 2.
\<close>

theorem C5_evict_order_at_failing_input:
  "map_option (\<lambda>r. (history r, buffer r, fst (Evict r)))
     (replacer_run [OpRecordAccess 1, OpRecordAccess 2, OpSetEvictable 2 True, OpSetEvictable 1 True]
        (LRUKReplacer_new 7 2))
     = Some ([1, 2], [], Some 2)
   \<and> map_option (\<lambda>r. (history r, buffer r, fst (Evict r)))
     (replacer_run [OpRecordAccess 1, OpRecordAccess 2, OpSetEvictable 1 True, OpSetEvictable 2 True,
                    OpRecordAccess 2, OpRecordAccess 1]
        (LRUKReplacer_new 7 2))
     = Some ([], [1, 2], Some 2)"
  by code_simp

section \<open>Theorems: extendible hash table\<close>

subsection \<open>Buckets\<close>

lemma list_find_put: "list_find k' (list_put k v ps) = (if k' = k then Some v else list_find k' ps)"
  by (induction ps) auto

lemma list_put_keys: "fst ` set (list_put k v ps) = insert k (fst ` set ps)"
  by (induction ps) auto

lemma list_put_distinct: "distinct (map fst ps) \<Longrightarrow> distinct (map fst (list_put k v ps))"
proof (induction ps)
  case Nil
  then show ?case by simp
next
  case (Cons p ps)
  have "fst ` set (list_put k v ps) = insert k (fst ` set ps)" by (rule list_put_keys)
  with Cons show ?case by auto
qed

lemma list_put_length: "length (list_put k v ps) \<le> Suc (length ps)"
  by (induction ps) auto

lemma list_find_None_iff: "list_find k ps = None \<longleftrightarrow> k \<notin> fst ` set ps"
  by (induction ps) auto





subsection \<open>Low bits\<close>

lemma mod_double_cases:
  fixes i :: nat
  shows "i mod 2 ^ Suc d = i mod 2 ^ d \<or> i mod 2 ^ Suc d = i mod 2 ^ d + 2 ^ d"
proof -
  have "i mod (2 ^ d * 2) = 2 ^ d * (i div 2 ^ d mod 2) + i mod 2 ^ d"
    by (rule mod_mult2_eq)
  moreover have "i div 2 ^ d mod 2 = 0 \<or> i div 2 ^ d mod 2 = 1" by auto
  ultimately show ?thesis by (auto simp: mult.commute)
qed

lemma mod_pow_le:
  fixes i :: nat
  assumes "d \<le> g"
  shows "i mod 2 ^ g mod 2 ^ d = i mod 2 ^ d"
proof -
  have "(2::nat) ^ d dvd 2 ^ g" using assms by (rule le_imp_power_dvd)
  then show ?thesis by (rule mod_mod_cancel)
qed

lemma split_target_iff:
  fixes i :: nat
  assumes "first < 2 ^ d"
  shows "(i mod 2 ^ d = first \<and> first \<noteq> i mod 2 ^ Suc d) \<longleftrightarrow> i mod 2 ^ Suc d = first + 2 ^ d"
proof
  assume "i mod 2 ^ d = first \<and> first \<noteq> i mod 2 ^ Suc d"
  with mod_double_cases [of i d] show "i mod 2 ^ Suc d = first + 2 ^ d" by auto
next
  assume a: "i mod 2 ^ Suc d = first + 2 ^ d"
  have "i mod 2 ^ d = i mod 2 ^ Suc d mod 2 ^ d" using mod_pow_le [of d "Suc d" i] by simp
  also have "\<dots> = first" using a assms by simp
  finally show "i mod 2 ^ d = first \<and> first \<noteq> i mod 2 ^ Suc d" using a by simp
qed

lemma split_keep_iff:
  fixes i :: nat
  assumes "first < 2 ^ d"
  shows "(i mod 2 ^ d = first \<and> i mod 2 ^ Suc d \<noteq> first + 2 ^ d) \<longleftrightarrow> i mod 2 ^ Suc d = first"
proof
  assume "i mod 2 ^ d = first \<and> i mod 2 ^ Suc d \<noteq> first + 2 ^ d"
  with mod_double_cases [of i d] show "i mod 2 ^ Suc d = first" by auto
next
  assume a: "i mod 2 ^ Suc d = first"
  have "i mod 2 ^ d = i mod 2 ^ Suc d mod 2 ^ d" using mod_pow_le [of d "Suc d" i] by simp
  also have "\<dots> = first" using a assms by simp
  finally show "i mod 2 ^ d = first \<and> i mod 2 ^ Suc d \<noteq> first + 2 ^ d" using a by simp
qed

subsection \<open>The loop over the directory\<close>

lemma split_dir_length [simp]: "length (split_dir first d n js ds) = length ds"
  unfolding split_dir_def by (induction js arbitrary: ds) auto

lemma split_dir_nth:
  "j < length ds \<Longrightarrow>
   split_dir first d n js ds ! j
     = (if j \<in> set js \<and> j mod 2 ^ (d - 1) = first \<and> first \<noteq> j mod 2 ^ d then n else ds ! j)"
  unfolding split_dir_def
proof (induction js arbitrary: ds)
  case Nil
  then show ?case by simp
next
  case (Cons a js)
  show ?case
  proof (cases "a = j")
    case True
    with Cons show ?thesis by auto
  next
    case False
    with Cons show ?thesis by auto
  qed
qed

lemma split_dir_Cons:
  "split_dir first d n (i # js) ds
     = split_dir first d n js (if i mod 2 ^ (d - 1) = first \<and> first \<noteq> i mod 2 ^ d then ds[i := n] else ds)"
  by (simp add: split_dir_def)

lemma split_dir_Nil: "split_dir first d n [] ds = ds"
  by (simp add: split_dir_def)

lemma fold_split_step_Some:
  "bh < length (buckets t) \<Longrightarrow>
   fold (split_step first bh) js (Some n, t)
     = (Some n, t\<lparr>dir := split_dir first (depth (buckets t ! bh)) n js (dir t)\<rparr>)"
proof (induction js arbitrary: t)
  case Nil
  then show ?case by (simp add: split_dir_Nil)
next
  case (Cons i js)
  show ?case
  proof (cases "i mod 2 ^ (depth (buckets t ! bh) - 1) = first \<and> first \<noteq> i mod 2 ^ depth (buckets t ! bh)")
    case True
    then have "split_step first bh i (Some n, t) = (Some n, t\<lparr>dir := (dir t)[i := n]\<rparr>)"
      by (simp add: split_step_def Let_def)
    then show ?thesis
      using Cons.IH [of "t\<lparr>dir := (dir t)[i := n]\<rparr>"] Cons.prems True
      by (simp add: split_dir_Cons)
  next
    case False
    then have "split_step first bh i (Some n, t) = (Some n, t)"
      by (auto simp: split_step_def Let_def)
    then show ?thesis
      using Cons.IH [of t] Cons.prems False
      by (auto simp: split_dir_Cons)
  qed
qed

lemma fold_split_step_None:
  "bh < length (buckets t) \<Longrightarrow>
   fold (split_step first bh) js (None, t)
     = (if \<exists>i\<in>set js. i mod 2 ^ (depth (buckets t ! bh) - 1) = first \<and> first \<noteq> i mod 2 ^ depth (buckets t ! bh)
        then (Some (length (buckets t)),
              t\<lparr>buckets := buckets t @ [Bucket_new (bucket_size t) (depth (buckets t ! bh))],
                num_buckets := num_buckets t + 1,
                dir := split_dir first (depth (buckets t ! bh)) (length (buckets t)) js (dir t)\<rparr>)
        else (None, t))"
proof (induction js arbitrary: t)
  case Nil
  then show ?case by simp
next
  case (Cons i js)
  let ?D = "depth (buckets t ! bh)"
  show ?case
  proof (cases "i mod 2 ^ (?D - 1) = first \<and> first \<noteq> i mod 2 ^ ?D")
    case True
    let ?t' = "t\<lparr>buckets := buckets t @ [Bucket_new (bucket_size t) ?D],
                 num_buckets := num_buckets t + 1,
                 dir := (dir t)[i := length (buckets t)]\<rparr>"
    have st: "split_step first bh i (None, t) = (Some (length (buckets t)), ?t')"
      using True by (simp add: split_step_def Let_def)
    have bh': "bh < length (buckets ?t')" using Cons.prems by simp
    have dep: "depth (buckets ?t' ! bh) = ?D" using Cons.prems by (simp add: nth_append)
    show ?thesis
      using True fold_split_step_Some [OF bh', where first = first and n = "length (buckets t)" and js = js] dep st
      by (simp add: split_dir_Cons)
  next
    case False
    then have "split_step first bh i (None, t) = (None, t)"
      by (auto simp: split_step_def Let_def)
    then show ?thesis
      using Cons.IH [of t] Cons.prems False
      by (auto simp: split_dir_Cons)
  qed
qed


subsection \<open>The invariant\<close>

lemma table_inv_slot: "table_inv h t \<Longrightarrow> i < length (dir t) \<Longrightarrow> slot_ok h t i"
  by (simp add: table_inv_def)

lemma table_inv_length: "table_inv h t \<Longrightarrow> length (dir t) = 2 ^ global_depth t"
  by (simp add: table_inv_def)

lemma IndexOf_less: "table_inv h t \<Longrightarrow> IndexOf h t k < length (dir t)"
  by (simp add: table_inv_def IndexOf_def)

lemma IndexOf_mod: "d \<le> global_depth t \<Longrightarrow> IndexOf h t k mod 2 ^ d = h k mod 2 ^ d"
  by (simp add: IndexOf_def mod_pow_le)

lemma table_inv_new: "table_inv h (ExtendibleHashTable_new n)"
  by (simp add: table_inv_def slot_ok_def ExtendibleHashTable_new_def Bucket_new_def)

lemma set_bucket_simps [simp]:
  "dir (set_bucket c b t) = dir t"
  "global_depth (set_bucket c b t) = global_depth t"
  "bucket_size (set_bucket c b t) = bucket_size t"
  "num_buckets (set_bucket c b t) = num_buckets t"
  "buckets (set_bucket c b t) = (buckets t)[c := b]"
  by (simp_all add: set_bucket_def)

text \<open>Replacing the items of one bucket by items that keep the bucket's discipline.\<close>

lemma set_items_inv:
  assumes inv: "table_inv h t"
    and s: "s < length (dir t)"
    and len: "length ps \<le> bucket_size t"
    and dist: "distinct (map fst ps)"
    and keys: "\<forall>kv\<in>set ps. h (fst kv) mod 2 ^ depth (buckets t ! (dir t ! s))
                 = s mod 2 ^ depth (buckets t ! (dir t ! s))"
  shows "table_inv h (set_bucket (dir t ! s) ((buckets t ! (dir t ! s))\<lparr>items := ps\<rparr>) t)"
proof -
  let ?c = "dir t ! s"
  let ?b = "buckets t ! ?c"
  let ?t' = "set_bucket ?c (?b\<lparr>items := ps\<rparr>) t"
  have oks: "slot_ok h t s" using inv s by (rule table_inv_slot)
  then have c: "?c < length (buckets t)" by (simp add: slot_ok_def)
  have "slot_ok h ?t' i" if i: "i < length (dir t)" for i
  proof -
    have oki: "slot_ok h t i" using inv i by (rule table_inv_slot)
    show ?thesis
    proof (cases "dir t ! i = ?c")
      case True
      have same: "i mod 2 ^ depth ?b = s mod 2 ^ depth ?b"
        using oks i True unfolding slot_ok_def by metis
      have nb: "buckets ?t' ! (dir ?t' ! i) = ?b\<lparr>items := ps\<rparr>"
        using True c by simp
      show ?thesis
        unfolding slot_ok_def nb
        using oki True c len dist keys same
        by (simp add: slot_ok_def)
    next
      case False
      have nb: "buckets ?t' ! (dir ?t' ! i) = buckets t ! (dir t ! i)"
        using False by simp
      show ?thesis
        unfolding slot_ok_def nb
        using oki by (simp add: slot_ok_def)
    qed
  qed
  then show ?thesis
    using inv by (simp add: table_inv_def)
qed

lemma Find_set_items:
  assumes inv: "table_inv h t" and s: "s < length (dir t)"
  shows "Find h k' (set_bucket (dir t ! s) ((buckets t ! (dir t ! s))\<lparr>items := ps\<rparr>) t)
           = (if dir t ! IndexOf h t k' = dir t ! s then list_find k' ps else Find h k' t)"
proof -
  have "slot_ok h t s" using inv s by (rule table_inv_slot)
  then have c: "dir t ! s < length (buckets t)" by (simp add: slot_ok_def)
  then show ?thesis
    by (simp add: Find_def GetIndexBucket_def IndexOf_def Bucket_Find_def)
qed

lemma reinsert_eq:
  "\<not> IsFull (buckets t ! (dir t ! IndexOf h t k)) \<Longrightarrow>
   reinsert h (k, v) t
     = set_bucket (dir t ! IndexOf h t k)
         ((buckets t ! (dir t ! IndexOf h t k))\<lparr>items := list_put k v (items (buckets t ! (dir t ! IndexOf h t k)))\<rparr>) t"
  by (simp add: reinsert_def Bucket_Insert_def Let_def)

lemma reinsert_inv:
  assumes inv: "table_inv h t" and nf: "\<not> IsFull (buckets t ! (dir t ! IndexOf h t k))"
  shows "table_inv h (reinsert h (k, v) t)"
proof -
  let ?s = "IndexOf h t k"
  let ?b = "buckets t ! (dir t ! ?s)"
  have s: "?s < length (dir t)" using inv by (rule IndexOf_less)
  have ok: "slot_ok h t ?s" using inv s by (rule table_inv_slot)
  have bs: "bsize ?b = bucket_size t" using ok by (simp add: slot_ok_def)
  have len: "length (list_put k v (items ?b)) \<le> bucket_size t"
    using nf bs list_put_length [of k v "items ?b"] by (simp add: IsFull_def)
  have dist: "distinct (map fst (list_put k v (items ?b)))"
    using ok by (simp add: slot_ok_def list_put_distinct)
  have dg: "depth ?b \<le> global_depth t" using ok by (simp add: slot_ok_def)
  have hk: "h k mod 2 ^ depth ?b = ?s mod 2 ^ depth ?b"
    using dg by (simp add: IndexOf_mod)
  have old: "\<forall>kv\<in>set (items ?b). h (fst kv) mod 2 ^ depth ?b = ?s mod 2 ^ depth ?b"
    using ok by (simp add: slot_ok_def)
  have keys: "\<forall>kv\<in>set (list_put k v (items ?b)). h (fst kv) mod 2 ^ depth ?b = ?s mod 2 ^ depth ?b"
  proof
    fix kv assume "kv \<in> set (list_put k v (items ?b))"
    then have "fst kv \<in> fst ` set (list_put k v (items ?b))" by simp
    then have "fst kv = k \<or> fst kv \<in> fst ` set (items ?b)" by (simp add: list_put_keys)
    then show "h (fst kv) mod 2 ^ depth ?b = ?s mod 2 ^ depth ?b"
      using hk old by auto
  qed
  show ?thesis
    unfolding reinsert_eq [OF nf]
    using inv s len dist keys by (rule set_items_inv)
qed

lemma reinsert_Find:
  assumes inv: "table_inv h t" and nf: "\<not> IsFull (buckets t ! (dir t ! IndexOf h t k))"
  shows "Find h k' (reinsert h (k, v) t) = (if k' = k then Some v else Find h k' t)"
proof -
  have s: "IndexOf h t k < length (dir t)" using inv by (rule IndexOf_less)
  show ?thesis
    unfolding reinsert_eq [OF nf] Find_set_items [OF inv s]
    by (auto simp: list_find_put Find_def GetIndexBucket_def Bucket_Find_def)
qed

lemma reinsert_frame:
  assumes nf: "\<not> IsFull (buckets t ! (dir t ! IndexOf h t k))"
  shows "dir (reinsert h (k, v) t) = dir t"
    and "global_depth (reinsert h (k, v) t) = global_depth t"
    and "bucket_size (reinsert h (k, v) t) = bucket_size t"
    and "length (buckets (reinsert h (k, v) t)) = length (buckets t)"
    and "c \<noteq> dir t ! IndexOf h t k \<Longrightarrow> buckets (reinsert h (k, v) t) ! c = buckets t ! c"
    and "dir t ! IndexOf h t k < length (buckets t) \<Longrightarrow>
         length (items (buckets (reinsert h (k, v) t) ! (dir t ! IndexOf h t k)))
           \<le> Suc (length (items (buckets t ! (dir t ! IndexOf h t k))))"
  unfolding reinsert_eq [OF nf]
  by (simp_all add: list_put_length)


subsection \<open>One split\<close>

lemma split_bucket_eq:
  assumes inv: "table_inv h t"
  shows "split_bucket h k t
           = (if depth (buckets t ! (dir t ! IndexOf h t k)) = global_depth t \<and> 30 \<le> global_depth t
              then None
              else Some (fold (reinsert h) (items (buckets t ! (dir t ! IndexOf h t k)))
                           (after_split h k t)))"
proof -
  define s where "s = IndexOf h t k"
  define bh where "bh = dir t ! s"
  define b where "b = buckets t ! bh"
  define d where "d = depth b"
  define g where "g = global_depth t"
  define first where "first = h k mod 2 ^ d"
  define dir2 where "dir2 = (if d = g then dir t @ dir t else dir t)"
  define g' where "g' = (if d = g then g + 1 else g)"
  define N where "N = length (buckets t)"
  have s: "s < length (dir t)" unfolding s_def using inv by (rule IndexOf_less)
  have ok: "slot_ok h t s" using inv s by (rule table_inv_slot)
  have bh: "bh < length (buckets t)" using ok by (simp add: slot_ok_def bh_def)
  have dg: "d \<le> g" using ok by (simp add: slot_ok_def bh_def b_def d_def g_def)
  have len: "length (dir t) = 2 ^ g" using inv by (simp add: table_inv_def g_def)
  have len2: "length dir2 = 2 ^ g'" by (simp add: dir2_def g'_def len)
  have dg': "d < g'" using dg by (simp add: g'_def)
  have f: "first < 2 ^ d" by (simp add: first_def)
  have "first + 2 ^ d < 2 ^ Suc d" using f by simp
  also have "\<dots> \<le> 2 ^ g'" using dg' by (simp add: Suc_leI power_increasing del: power_Suc)
  finally have wit: "first + 2 ^ d < length dir2" by (simp add: len2)
  have witmod: "(first + 2 ^ d) mod 2 ^ Suc d = first + 2 ^ d" using f by simp
  have ex: "\<exists>i\<in>set [first + 1..<length dir2]. i mod 2 ^ d = first \<and> first \<noteq> i mod 2 ^ Suc d"
  proof
    show "first + 2 ^ d \<in> set [first + 1..<length dir2]" using wit by simp
    show "(first + 2 ^ d) mod 2 ^ d = first \<and> first \<noteq> (first + 2 ^ d) mod 2 ^ Suc d"
      using split_target_iff [OF f, of "first + 2 ^ d"] witmod by blast
  qed
  have dir_eq: "split_dir first (Suc d) N [first + 1..<length dir2] dir2
                  = map (\<lambda>j. if j mod 2 ^ Suc d = first + 2 ^ d then N else dir2 ! j) [0..<length dir2]"
  proof (rule nth_equalityI)
    show "length (split_dir first (Suc d) N [first + 1..<length dir2] dir2)
            = length (map (\<lambda>j. if j mod 2 ^ Suc d = first + 2 ^ d then N else dir2 ! j) [0..<length dir2])"
      by simp
  next
    fix j assume "j < length (split_dir first (Suc d) N [first + 1..<length dir2] dir2)"
    then have j: "j < length dir2" by simp
    have "(j \<in> set [first + 1..<length dir2] \<and> j mod 2 ^ d = first \<and> first \<noteq> j mod 2 ^ Suc d)
            \<longleftrightarrow> j mod 2 ^ Suc d = first + 2 ^ d"
    proof
      assume "j \<in> set [first + 1..<length dir2] \<and> j mod 2 ^ d = first \<and> first \<noteq> j mod 2 ^ Suc d"
      then show "j mod 2 ^ Suc d = first + 2 ^ d"
        using split_target_iff [OF f, of j] by blast
    next
      assume a: "j mod 2 ^ Suc d = first + 2 ^ d"
      have pos: "(0::nat) < 2 ^ d" by simp
      have "j mod 2 ^ Suc d \<le> j" by (rule mod_less_eq_dividend)
      then have "first + 2 ^ d \<le> j" unfolding a .
      with pos have "first < j" by linarith
      with j a split_target_iff [OF f, of j]
      show "j \<in> set [first + 1..<length dir2] \<and> j mod 2 ^ d = first \<and> first \<noteq> j mod 2 ^ Suc d"
        by simp
    qed
    then show "split_dir first (Suc d) N [first + 1..<length dir2] dir2 ! j
                 = map (\<lambda>j. if j mod 2 ^ Suc d = first + 2 ^ d then N else dir2 ! j) [0..<length dir2] ! j"
      using j by (simp add: split_dir_nth del: power_Suc)
  qed
  note defs = s_def bh_def b_def d_def g_def first_def dir2_def N_def
  have bh_raw: "dir t ! (h k mod 2 ^ global_depth t) < length (buckets t)"
    using bh unfolding defs IndexOf_def .
  show ?thesis
  proof (cases "d = g \<and> 30 \<le> g")
    case True
    then have "depth (buckets t ! (dir t ! (h k mod 2 ^ global_depth t))) = global_depth t
               \<and> 30 \<le> global_depth t"
      unfolding defs IndexOf_def .
    then show ?thesis
      using bh_raw
      by (simp add: split_bucket_def Let_def GetIndexBucket_def IndexOf_def)
  next
    case False
    let ?t3 = "(if d = g then t\<lparr>global_depth := g + 1, dir := dir t @ dir t\<rparr> else t)
                 \<lparr>buckets := (buckets t)[bh := b\<lparr>items := [], depth := Suc d\<rparr>]\<rparr>"
    have bh3: "bh < length (buckets ?t3)" using bh by simp
    have d3: "depth (buckets ?t3 ! bh) = Suc d" using bh by simp
    have len3: "length (buckets ?t3) = N" by (simp add: N_def)
    have dir3: "dir ?t3 = dir2" by (simp add: dir2_def)
    have bs3: "bucket_size ?t3 = bucket_size t" by simp
    have fold_eq: "fold (split_step first bh) [first + 1..<length dir2] (None, ?t3)
             = (Some N,
                ?t3\<lparr>buckets := buckets ?t3 @ [Bucket_new (bucket_size t) (Suc d)],
                    num_buckets := num_buckets ?t3 + 1,
                    dir := map (\<lambda>j. if j mod 2 ^ Suc d = first + 2 ^ d then N else dir2 ! j)
                             [0..<length dir2]\<rparr>)"
      unfolding fold_split_step_None [OF bh3] d3 len3 dir3 bs3 dir_eq
      using ex by (simp del: power_Suc)
    have t4: "?t3\<lparr>buckets := buckets ?t3 @ [Bucket_new (bucket_size t) (Suc d)],
                    num_buckets := num_buckets ?t3 + 1,
                    dir := map (\<lambda>j. if j mod 2 ^ Suc d = first + 2 ^ d then N else dir2 ! j)
                             [0..<length dir2]\<rparr>
              = after_split h k t"
      unfolding after_split_def Let_def defs
      by (cases "depth (buckets t ! (dir t ! IndexOf h t k)) = global_depth t")
         (simp_all del: power_Suc)
    have nt: "\<not> (depth (buckets t ! (dir t ! (h k mod 2 ^ global_depth t))) = global_depth t
               \<and> 30 \<le> global_depth t)"
      using False unfolding defs IndexOf_def .
    have sb: "split_bucket h k t
                = Some (fold (reinsert h) (items b)
                          (snd (fold (split_step first bh) [first + 1..<length dir2] (None, ?t3))))"
      unfolding defs
      using nt bh_raw
      by (cases "depth (buckets t ! (dir t ! (h k mod 2 ^ global_depth t))) = global_depth t")
         (simp_all add: split_bucket_def Let_def GetIndexBucket_def IndexOf_def set_bucket_def
            del: power_Suc)
    show ?thesis
      unfolding sb fold_eq snd_conv t4
      using False unfolding defs by simp
  qed
qed


lemma nth_doubled:
  assumes "j < 2 * length xs"
  shows "(xs @ xs) ! j = xs ! (j mod length xs)"
proof (cases "j < length xs")
  case True
  then show ?thesis by (simp add: nth_append)
next
  case False
  then have "j mod length xs = j - length xs"
    using assms by (simp add: le_mod_geq)
  with False show ?thesis by (simp add: nth_append)
qed

lemma after_split_facts:
  fixes h :: "'k \<Rightarrow> nat" and t :: "('k, 'v) ExtendibleHashTable"
  assumes inv: "table_inv h t"
    and ng: "\<not> (depth (buckets t ! (dir t ! IndexOf h t k)) = global_depth t \<and> 30 \<le> global_depth t)"
  shows "table_inv h (after_split h k t)"
    and "Find h k' (after_split h k t)
           = (if h k' mod 2 ^ depth (buckets t ! (dir t ! IndexOf h t k))
                   = h k mod 2 ^ depth (buckets t ! (dir t ! IndexOf h t k))
              then None else Find h k' t)"
    and "h k' mod 2 ^ depth (buckets t ! (dir t ! IndexOf h t k))
           = h k mod 2 ^ depth (buckets t ! (dir t ! IndexOf h t k))
         \<Longrightarrow> dir (after_split h k t) ! IndexOf h (after_split h k t) k'
               \<in> {dir t ! IndexOf h t k, length (buckets t)}"
    and "items (buckets (after_split h k t) ! (dir t ! IndexOf h t k)) = []"
    and "items (buckets (after_split h k t) ! length (buckets t)) = []"
    and "bucket_size (after_split h k t) = bucket_size t"
    and "dir t ! IndexOf h t k < length (buckets t)"
proof -
  define s where "s = IndexOf h t k"
  define bh where "bh = dir t ! s"
  define b where "b = buckets t ! bh"
  define d where "d = depth b"
  define g where "g = global_depth t"
  define first where "first = h k mod 2 ^ d"
  define dir2 where "dir2 = (if d = g then dir t @ dir t else dir t)"
  define g' where "g' = (if d = g then g + 1 else g)"
  define N where "N = length (buckets t)"
  define t4 where "t4 = after_split h k t"
  note defs = s_def bh_def b_def d_def g_def first_def dir2_def N_def
  have s: "s < length (dir t)" unfolding s_def using inv by (rule IndexOf_less)
  have ok: "slot_ok h t s" using inv s by (rule table_inv_slot)
  have bh: "bh < N" using ok by (simp add: slot_ok_def bh_def N_def)
  have dg: "d \<le> g" using ok by (simp add: slot_ok_def bh_def b_def d_def g_def)
  have g30: "g \<le> 30" using inv by (simp add: table_inv_def g_def)
  have len: "length (dir t) = 2 ^ g" using inv by (simp add: table_inv_def g_def)
  have len2: "length dir2 = 2 ^ g'" by (simp add: dir2_def g'_def len)
  have dg': "Suc d \<le> g'" using dg by (simp add: g'_def)
  have gg': "g \<le> g'" by (simp add: g'_def)
  have g'30: "g' \<le> 30" using ng g30 unfolding defs [symmetric] by (auto simp: g'_def)
  have f: "first < 2 ^ d" by (simp add: first_def)
  have smod: "s mod 2 ^ d = first"
    unfolding s_def first_def using dg unfolding g_def by (rule IndexOf_mod)
  have bsb: "bsize b = bucket_size t" using ok by (simp add: slot_ok_def bh_def b_def)
  have gd4: "global_depth t4 = g'"
    unfolding t4_def after_split_def Let_def g'_def defs by simp
  have dir4: "dir t4 = map (\<lambda>j. if j mod 2 ^ Suc d = first + 2 ^ d then N else dir2 ! j) [0..<length dir2]"
    unfolding t4_def after_split_def Let_def defs by simp
  have bk4: "buckets t4 = (buckets t)[bh := b\<lparr>items := [], depth := Suc d\<rparr>]
                           @ [Bucket_new (bucket_size t) (Suc d)]"
    unfolding t4_def after_split_def Let_def defs by simp
  have bs4: "bucket_size t4 = bucket_size t"
    unfolding t4_def after_split_def Let_def by simp
  have len4: "length (dir t4) = 2 ^ g'" by (simp add: dir4 len2)
  have bkN: "buckets t4 ! N = Bucket_new (bucket_size t) (Suc d)"
    by (simp add: bk4 nth_append N_def)
  have bkbh: "buckets t4 ! bh = b\<lparr>items := [], depth := Suc d\<rparr>"
    using bh by (simp add: bk4 nth_append N_def)
  have bkc: "buckets t4 ! c = buckets t ! c" if "c < N" "c \<noteq> bh" for c
    using that by (simp add: bk4 nth_append N_def)
  have lenbk4: "length (buckets t4) = Suc N" by (simp add: bk4 N_def)
  have jm: "j mod 2 ^ g < length (dir t)" for j by (simp add: len)
  have dir2n: "dir2 ! j = dir t ! (j mod 2 ^ g)" if "j < 2 ^ g'" for j
  proof (cases "d = g")
    case True
    then have "j < 2 * length (dir t)" using that by (simp add: g'_def len)
    then have "(dir t @ dir t) ! j = dir t ! (j mod length (dir t))" by (rule nth_doubled)
    then show ?thesis using True by (simp add: dir2_def len)
  next
    case False
    then show ?thesis using that by (simp add: dir2_def g'_def)
  qed
  have okj: "slot_ok h t (j mod 2 ^ g)" for j using inv jm by (rule table_inv_slot)
  have lt: "dir2 ! j < N" if "j < 2 ^ g'" for j
    using okj [of j] dir2n [OF that] by (simp add: slot_ok_def N_def)
  have isbh: "(dir2 ! j = bh) = (j mod 2 ^ d = first)" if "j < 2 ^ g'" for j
  proof -
    have "(dir t ! (j mod 2 ^ g) = dir t ! s) = (j mod 2 ^ g mod 2 ^ d = s mod 2 ^ d)"
      using ok jm [of j] unfolding slot_ok_def bh_def [symmetric] b_def [symmetric] d_def [symmetric]
      by blast
    then show ?thesis
      using dg by (simp add: dir2n [OF that] bh_def mod_pow_le smod)
  qed
  have dir4n: "dir t4 ! j = (if j mod 2 ^ Suc d = first + 2 ^ d then N else dir2 ! j)"
    if "j < 2 ^ g'" for j
    using that by (simp add: dir4 len2 del: power_Suc)
  have caseA: "slot_ok h t4 i \<and> dir t4 ! i = N"
    if i: "i < 2 ^ g'" and A: "i mod 2 ^ Suc d = first + 2 ^ d" for i
  proof -
    have di: "dir t4 ! i = N" using i A by (simp add: dir4n del: power_Suc)
    have five: "\<forall>j<length (dir t4). (dir t4 ! j = N) = (j mod 2 ^ Suc d = i mod 2 ^ Suc d)"
    proof (intro allI impI)
      fix j assume "j < length (dir t4)"
      then have j: "j < 2 ^ g'" by (simp add: len4)
      show "(dir t4 ! j = N) = (j mod 2 ^ Suc d = i mod 2 ^ Suc d)"
        using lt [OF j] by (auto simp: dir4n [OF j] A simp del: power_Suc)
    qed
    show ?thesis
      unfolding slot_ok_def di bkN
      using five dg' by (simp add: Bucket_new_def lenbk4 gd4 bs4 del: power_Suc)
  qed
  have caseB: "slot_ok h t4 i \<and> dir t4 ! i = bh"
    if i: "i < 2 ^ g'" and B: "i mod 2 ^ Suc d = first" for i
  proof -
    have nA: "i mod 2 ^ Suc d \<noteq> first + 2 ^ d" using B by simp
    have "i mod 2 ^ d = first" using split_keep_iff [OF f, of i] B by blast
    then have "dir2 ! i = bh" using isbh [OF i] by simp
    then have di: "dir t4 ! i = bh" using nA by (simp add: dir4n [OF i] del: power_Suc)
    have five: "\<forall>j<length (dir t4). (dir t4 ! j = bh) = (j mod 2 ^ Suc d = i mod 2 ^ Suc d)"
    proof (intro allI impI)
      fix j assume "j < length (dir t4)"
      then have j: "j < 2 ^ g'" by (simp add: len4)
      show "(dir t4 ! j = bh) = (j mod 2 ^ Suc d = i mod 2 ^ Suc d)"
      proof (cases "j mod 2 ^ Suc d = first + 2 ^ d")
        case True
        then show ?thesis using bh B by (simp add: dir4n [OF j] del: power_Suc)
      next
        case False
        then have "(dir t4 ! j = bh) = (j mod 2 ^ d = first)"
          by (simp add: dir4n [OF j] isbh [OF j] del: power_Suc)
        also have "\<dots> = (j mod 2 ^ Suc d = first)"
          using split_keep_iff [OF f, of j] False by blast
        finally show ?thesis using B by simp
      qed
    qed
    show ?thesis
      unfolding slot_ok_def di bkbh
      using five dg' bh bsb by (simp add: lenbk4 gd4 bs4 del: power_Suc)
  qed
  have caseC: "slot_ok h t4 i \<and> buckets t4 ! (dir t4 ! i) = buckets t ! (dir t ! (i mod 2 ^ g))"
    if i: "i < 2 ^ g'" and C: "i mod 2 ^ d \<noteq> first" for i
  proof -
    define c where "c = dir t ! (i mod 2 ^ g)"
    define e where "e = depth (buckets t ! c)"
    have nA: "i mod 2 ^ Suc d \<noteq> first + 2 ^ d"
      using split_target_iff [OF f, of i] C by blast
    have d2: "dir2 ! i = c" by (simp add: dir2n [OF i] c_def)
    have di: "dir t4 ! i = c" using nA d2 by (simp add: dir4n [OF i] del: power_Suc)
    have cbh: "c \<noteq> bh" using isbh [OF i] C d2 by simp
    have cN: "c < N" using lt [OF i] d2 by simp
    have bc: "buckets t4 ! c = buckets t ! c" using cN cbh by (rule bkc)
    have oki: "slot_ok h t (i mod 2 ^ g)" by (rule okj)
    have eg: "e \<le> g" using oki by (simp add: slot_ok_def c_def e_def g_def)
    have five: "\<forall>j<length (dir t4). (dir t4 ! j = c) = (j mod 2 ^ e = i mod 2 ^ e)"
    proof (intro allI impI)
      fix j assume "j < length (dir t4)"
      then have j: "j < 2 ^ g'" by (simp add: len4)
      have a: "(dir t4 ! j = c) = (dir2 ! j = c)"
      proof (cases "j mod 2 ^ Suc d = first + 2 ^ d")
        case True
        then have "j mod 2 ^ d = first" using split_target_iff [OF f, of j] by blast
        then have "dir2 ! j = bh" using isbh [OF j] by simp
        then show ?thesis using True cN cbh by (simp add: dir4n [OF j] del: power_Suc)
      next
        case False
        then show ?thesis by (simp add: dir4n [OF j] del: power_Suc)
      qed
      have "(dir t ! (j mod 2 ^ g) = c) = (j mod 2 ^ g mod 2 ^ e = i mod 2 ^ g mod 2 ^ e)"
        using oki jm [of j] unfolding slot_ok_def c_def [symmetric] e_def [symmetric] by blast
      then have "(dir2 ! j = c) = (j mod 2 ^ e = i mod 2 ^ e)"
        using eg by (simp add: dir2n [OF j] mod_pow_le)
      with a show "(dir t4 ! j = c) = (j mod 2 ^ e = i mod 2 ^ e)" by simp
    qed
    have six: "\<forall>kv\<in>set (items (buckets t ! c)). h (fst kv) mod 2 ^ e = i mod 2 ^ e"
      using oki eg unfolding slot_ok_def c_def [symmetric] e_def [symmetric]
      by (simp add: mod_pow_le)
    have rest: "c < length (buckets t) \<and> bsize (buckets t ! c) = bucket_size t
                \<and> length (items (buckets t ! c)) \<le> bucket_size t
                \<and> distinct (map fst (items (buckets t ! c)))"
      using oki unfolding slot_ok_def c_def [symmetric] by simp
    have "slot_ok h t4 i"
      unfolding slot_ok_def di bc e_def [symmetric]
      using five six rest eg gg' by (simp add: lenbk4 gd4 bs4 N_def)
    with bc show ?thesis unfolding di unfolding c_def by simp
  qed
  have cases3: "i mod 2 ^ Suc d = first + 2 ^ d \<or> i mod 2 ^ Suc d = first \<or> i mod 2 ^ d \<noteq> first" for i
    using mod_double_cases [of i d] by auto
  have "slot_ok h t4 i" if "i < length (dir t4)" for i
  proof -
    have i: "i < 2 ^ g'" using that by (simp add: len4)
    show ?thesis using cases3 [of i] caseA [OF i] caseB [OF i] caseC [OF i] by blast
  qed
  then have "table_inv h t4"
    using len4 g'30 by (simp add: table_inv_def gd4)
  then show "table_inv h (after_split h k t)" by (simp add: t4_def)
  define i' where "i' = h k' mod 2 ^ g'"
  have i': "i' < 2 ^ g'" by (simp add: i'_def)
  have i'd: "i' mod 2 ^ d = h k' mod 2 ^ d" using dg' by (simp add: i'_def mod_pow_le)
  have i'g: "i' mod 2 ^ g = IndexOf h t k'" using gg' by (simp add: i'_def mod_pow_le IndexOf_def g_def)
  have idx: "IndexOf h t4 k' = i'" by (simp add: IndexOf_def gd4 i'_def)
  have F: "Find h k' t4 = list_find k' (items (buckets t4 ! (dir t4 ! i')))"
    by (simp add: Find_def GetIndexBucket_def Bucket_Find_def idx)
  have "Find h k' t4 = (if h k' mod 2 ^ d = first then None else Find h k' t)"
  proof (cases "h k' mod 2 ^ d = first")
    case True
    then have "i' mod 2 ^ Suc d = first + 2 ^ d \<or> i' mod 2 ^ Suc d = first"
      using cases3 [of i'] i'd by simp
    then have "items (buckets t4 ! (dir t4 ! i')) = []"
      using caseA [OF i'] caseB [OF i'] bkN bkbh by (auto simp: Bucket_new_def)
    then show ?thesis using True by (simp add: F)
  next
    case False
    then have "buckets t4 ! (dir t4 ! i') = buckets t ! (dir t ! (i' mod 2 ^ g))"
      using caseC [OF i'] i'd by simp
    then show ?thesis
      using False by (simp add: i'g Find_def GetIndexBucket_def Bucket_Find_def idx)
  qed
  then show "Find h k' (after_split h k t)
           = (if h k' mod 2 ^ depth (buckets t ! (dir t ! IndexOf h t k))
                   = h k mod 2 ^ depth (buckets t ! (dir t ! IndexOf h t k))
              then None else Find h k' t)"
    unfolding t4_def defs .
  show "dir (after_split h k t) ! IndexOf h (after_split h k t) k'
               \<in> {dir t ! IndexOf h t k, length (buckets t)}"
    if "h k' mod 2 ^ depth (buckets t ! (dir t ! IndexOf h t k))
           = h k mod 2 ^ depth (buckets t ! (dir t ! IndexOf h t k))"
  proof -
    have "h k' mod 2 ^ d = first" using that unfolding defs .
    then have "i' mod 2 ^ Suc d = first + 2 ^ d \<or> i' mod 2 ^ Suc d = first"
      using cases3 [of i'] i'd by simp
    then have "dir t4 ! i' \<in> {bh, N}"
      using caseA [OF i'] caseB [OF i'] by auto
    then show ?thesis
      unfolding idx [symmetric] unfolding t4_def defs .
  qed
  show "items (buckets (after_split h k t) ! (dir t ! IndexOf h t k)) = []"
    using bkbh unfolding t4_def defs by simp
  show "items (buckets (after_split h k t) ! length (buckets t)) = []"
    using bkN unfolding t4_def defs by (simp add: Bucket_new_def)
  show "bucket_size (after_split h k t) = bucket_size t"
    using bs4 unfolding t4_def .
  show "dir t ! IndexOf h t k < length (buckets t)"
    using bh unfolding defs .
qed


subsection \<open>Putting the items back\<close>

lemma IndexOf_cong: "global_depth t' = global_depth t \<Longrightarrow> IndexOf h t' k = IndexOf h t k"
  by (simp add: IndexOf_def)

lemma reinsert_fold:
  assumes "table_inv h t"
    and "\<forall>kv\<in>set lst. dir t ! IndexOf h t (fst kv) \<in> {a, c}"
    and "length (items (buckets t ! a)) + length (items (buckets t ! c)) + length lst \<le> bucket_size t"
    and "a \<noteq> c"
    and "distinct (map fst lst)"
  shows "table_inv h (fold (reinsert h) lst t)
         \<and> (\<forall>k'. Find h k' (fold (reinsert h) lst t)
                   = (if k' \<in> fst ` set lst then list_find k' lst else Find h k' t))"
  using assms
proof (induction lst arbitrary: t)
  case Nil
  then show ?case by simp
next
  case (Cons kv lst)
  obtain k v where kv: "kv = (k, v)" by (cases kv)
  let ?x = "dir t ! IndexOf h t k"
  let ?t' = "reinsert h (k, v) t"
  have inv: "table_inv h t" by (rule Cons.prems(1))
  have s: "IndexOf h t k < length (dir t)" using inv by (rule IndexOf_less)
  have ok: "slot_ok h t (IndexOf h t k)" using inv s by (rule table_inv_slot)
  have xr: "?x < length (buckets t)" using ok by (simp add: slot_ok_def)
  have bsx: "bsize (buckets t ! ?x) = bucket_size t" using ok by (simp add: slot_ok_def)
  have xac: "?x = a \<or> ?x = c" using Cons.prems(2) by (simp add: kv)
  have room: "length (items (buckets t ! a)) + length (items (buckets t ! c)) + Suc (length lst)
                \<le> bucket_size t"
    using Cons.prems(3) by simp
  have nf: "\<not> IsFull (buckets t ! ?x)"
    using xac room bsx by (auto simp: IsFull_def)
  have inv': "table_inv h ?t'" using inv nf by (rule reinsert_inv)
  have d': "dir ?t' = dir t" and g': "global_depth ?t' = global_depth t"
    and bs': "bucket_size ?t' = bucket_size t"
    using reinsert_frame [OF nf] by simp_all
  have two': "\<forall>kv\<in>set lst. dir ?t' ! IndexOf h ?t' (fst kv) \<in> {a, c}"
    using Cons.prems(2) by (simp add: d' IndexOf_cong [OF g'])
  have grow: "length (items (buckets ?t' ! ?x)) \<le> Suc (length (items (buckets t ! ?x)))"
    using reinsert_frame(6) [OF nf xr] .
  have other: "y \<noteq> ?x \<Longrightarrow> buckets ?t' ! y = buckets t ! y" for y
    using reinsert_frame(5) [OF nf] .
  have room': "length (items (buckets ?t' ! a)) + length (items (buckets ?t' ! c)) + length lst
                 \<le> bucket_size ?t'"
  proof (cases "?x = a")
    case True
    then have "buckets ?t' ! c = buckets t ! c" using other [of c] Cons.prems(4) by simp
    then show ?thesis using grow room True by (simp add: bs')
  next
    case False
    then have xc: "?x = c" using xac by simp
    then have "buckets ?t' ! a = buckets t ! a" using other [of a] Cons.prems(4) by simp
    then show ?thesis using grow room xc by (simp add: bs')
  qed
  have dist': "distinct (map fst lst)" and knot: "k \<notin> fst ` set lst"
    using Cons.prems(5) by (simp_all add: kv)
  have IH: "table_inv h (fold (reinsert h) lst ?t')
         \<and> (\<forall>k'. Find h k' (fold (reinsert h) lst ?t')
                   = (if k' \<in> fst ` set lst then list_find k' lst else Find h k' ?t'))"
    using inv' two' room' Cons.prems(4) dist' by (rule Cons.IH)
  have F': "Find h k' ?t' = (if k' = k then Some v else Find h k' t)" for k'
    using inv nf by (rule reinsert_Find)
  show ?case
    using IH knot by (auto simp: kv F')
qed

lemma split_bucket_correct:
  assumes inv: "table_inv h t" and sp: "split_bucket h k t = Some t'"
  shows "table_inv h t' \<and> (\<forall>k'. Find h k' t' = Find h k' t)"
proof -
  let ?s = "IndexOf h t k"
  let ?bh = "dir t ! ?s"
  let ?b = "buckets t ! ?bh"
  let ?lst = "items ?b"
  let ?t4 = "after_split h k t"
  have ng: "\<not> (depth ?b = global_depth t \<and> 30 \<le> global_depth t)"
    using sp unfolding split_bucket_eq [OF inv] by (auto split: if_splits)
  have t': "t' = fold (reinsert h) ?lst ?t4"
    using sp ng unfolding split_bucket_eq [OF inv] by simp
  note facts = after_split_facts [OF inv ng]
  have s: "?s < length (dir t)" using inv by (rule IndexOf_less)
  have ok: "slot_ok h t ?s" using inv s by (rule table_inv_slot)
  have dg: "depth ?b \<le> global_depth t" using ok by (simp add: slot_ok_def)
  have smod: "?s mod 2 ^ depth ?b = h k mod 2 ^ depth ?b" using dg by (rule IndexOf_mod)
  have pat: "\<forall>kv\<in>set ?lst. h (fst kv) mod 2 ^ depth ?b = h k mod 2 ^ depth ?b"
    using ok smod by (simp add: slot_ok_def)
  have two: "\<forall>kv\<in>set ?lst. dir ?t4 ! IndexOf h ?t4 (fst kv) \<in> {?bh, length (buckets t)}"
    using pat facts(3) by blast
  have room: "length (items (buckets ?t4 ! ?bh)) + length (items (buckets ?t4 ! length (buckets t)))
                + length ?lst \<le> bucket_size ?t4"
    using ok by (simp add: facts(4) facts(5) facts(6) slot_ok_def)
  have ac: "?bh \<noteq> length (buckets t)" using facts(7) by simp
  have dist: "distinct (map fst ?lst)" using ok by (simp add: slot_ok_def)
  have R: "table_inv h t'
         \<and> (\<forall>k'. Find h k' t' = (if k' \<in> fst ` set ?lst then list_find k' ?lst else Find h k' ?t4))"
    unfolding t' using facts(1) two room ac dist by (rule reinsert_fold)
  have "Find h k' t' = Find h k' t" for k'
  proof (cases "h k' mod 2 ^ depth ?b = h k mod 2 ^ depth ?b")
    case True
    have j: "IndexOf h t k' < length (dir t)" using inv by (rule IndexOf_less)
    have "IndexOf h t k' mod 2 ^ depth ?b = ?s mod 2 ^ depth ?b"
      using True smod dg by (simp add: IndexOf_mod)
    then have "dir t ! IndexOf h t k' = ?bh"
      using ok j unfolding slot_ok_def by blast
    then have old: "Find h k' t = list_find k' ?lst"
      by (simp add: Find_def GetIndexBucket_def Bucket_Find_def)
    have none: "Find h k' ?t4 = None" using facts(2) [of k'] True by simp
    show ?thesis
    proof (cases "k' \<in> fst ` set ?lst")
      case True
      then show ?thesis using R old by simp
    next
      case False
      then have "list_find k' ?lst = None" by (simp add: list_find_None_iff)
      then show ?thesis using R old none False by simp
    qed
  next
    case False
    then have "k' \<notin> fst ` set ?lst" using pat by auto
    then show ?thesis using R facts(2) [of k'] False by simp
  qed
  with R show ?thesis by simp
qed

subsection \<open>Insert\<close>

lemma Insert_entry_not_full:
  "\<not> IsFull (buckets t ! (dir t ! IndexOf h t k)) \<Longrightarrow>
   Insert_entry h k v t = Some (reinsert h (k, v) t)"
  by (subst Insert_entry.simps) (simp add: Let_def Bucket_Insert_def reinsert_def)

lemma Insert_entry_full:
  "IsFull (buckets t ! (dir t ! IndexOf h t k)) \<Longrightarrow>
   Insert_entry h k v t = (case split_bucket h k t of None \<Rightarrow> None | Some t' \<Rightarrow> Insert_entry h k v t')"
  by (subst Insert_entry.simps) (simp add: Let_def Bucket_Insert_def)

lemma Insert_entry_correct:
  assumes run: "Insert_entry h k v t = Some t'" and inv: "table_inv h t"
  shows "table_inv h t' \<and> Find h k t' = Some v \<and> (\<forall>k'. k' \<noteq> k \<longrightarrow> Find h k' t' = Find h k' t)"
proof -
  have "table_inv h t \<longrightarrow>
          table_inv h t' \<and> Find h k t' = Some v \<and> (\<forall>k'. k' \<noteq> k \<longrightarrow> Find h k' t' = Find h k' t)"
  proof (rule Insert_entry.raw_induct
      [where P = "\<lambda>h k v t t'. table_inv h t \<longrightarrow>
          table_inv h t' \<and> Find h k t' = Some v \<and> (\<forall>k'. k' \<noteq> k \<longrightarrow> Find h k' t' = Find h k' t)"
        and h = h and k = k and v = v and t = t and y = t'])
    show "Insert_entry h k v t = Some t'" by (rule run)
  next
    fix ins :: "('a \<Rightarrow> nat) \<Rightarrow> 'a \<Rightarrow> 'b \<Rightarrow> ('a, 'b) ExtendibleHashTable \<Rightarrow> ('a, 'b) ExtendibleHashTable option"
    fix h k v t ha
    assume IH: "\<And>h' k' v' t0 y. ins h' k' v' t0 = Some y \<Longrightarrow>
                  table_inv h' t0 \<longrightarrow>
                  table_inv h' y \<and> Find h' k' y = Some v'
                  \<and> (\<forall>k''. k'' \<noteq> k' \<longrightarrow> Find h' k'' y = Find h' k'' t0)"
      and body: "(let bh = dir t ! IndexOf h t k; r = Bucket_Insert k v (buckets t ! bh)
                  in if fst r then Some (set_bucket bh (snd r) t)
                     else case split_bucket h k t of None \<Rightarrow> None | Some t' \<Rightarrow> ins h k v t') = Some ha"
    show "table_inv h t \<longrightarrow>
            table_inv h ha \<and> Find h k ha = Some v \<and> (\<forall>k'. k' \<noteq> k \<longrightarrow> Find h k' ha = Find h k' t)"
    proof
      assume inv: "table_inv h t"
      let ?bh = "dir t ! IndexOf h t k"
      show "table_inv h ha \<and> Find h k ha = Some v \<and> (\<forall>k'. k' \<noteq> k \<longrightarrow> Find h k' ha = Find h k' t)"
      proof (cases "IsFull (buckets t ! ?bh)")
        case False
        then have ha: "ha = reinsert h (k, v) t"
          using body by (simp add: Let_def Bucket_Insert_def reinsert_def)
        show ?thesis
          unfolding ha
          using reinsert_inv [OF inv False] reinsert_Find [OF inv False] by simp
      next
        case True
        then obtain t1 where sp: "split_bucket h k t = Some t1" and rec: "ins h k v t1 = Some ha"
          using body by (auto simp: Let_def Bucket_Insert_def split: option.splits)
        have c: "table_inv h t1 \<and> (\<forall>k'. Find h k' t1 = Find h k' t)"
          using inv sp by (rule split_bucket_correct)
        then have "table_inv h ha \<and> Find h k ha = Some v
                   \<and> (\<forall>k'. k' \<noteq> k \<longrightarrow> Find h k' ha = Find h k' t1)"
          using IH [OF rec] by simp
        with c show ?thesis by simp
      qed
    qed
  qed
  with inv show ?thesis by simp
qed






subsection \<open>An insert that does not return\<close>

lemma reinsert_bucket_size: "bucket_size (reinsert h kv t) = bucket_size t"
  by (simp add: reinsert_def Let_def)

lemma fold_reinsert_bucket_size: "bucket_size (fold (reinsert h) lst t) = bucket_size t"
  by (induction lst arbitrary: t) (simp_all add: reinsert_bucket_size)

lemma split_bucket_bucket_size:
  assumes inv: "table_inv h t" and sp: "split_bucket h k t = Some t'"
  shows "bucket_size t' = bucket_size t"
proof -
  have ng: "\<not> (depth (buckets t ! (dir t ! IndexOf h t k)) = global_depth t \<and> 30 \<le> global_depth t)"
    using sp unfolding split_bucket_eq [OF inv] by (auto split: if_splits)
  have "t' = fold (reinsert h) (items (buckets t ! (dir t ! IndexOf h t k))) (after_split h k t)"
    using sp ng unfolding split_bucket_eq [OF inv] by simp
  then show ?thesis
    using after_split_facts(6) [OF inv ng] by (simp add: fold_reinsert_bucket_size)
qed

lemma Insert_entry_diverges:
  assumes inv: "table_inv h t" and one: "bucket_size t = 1"
    and present: "Find h k0 t = Some a"
    and coll: "\<forall>g\<le>30. h k mod 2 ^ g = h k0 mod 2 ^ g"
  shows "Insert_entry h k v t = None"
proof (rule ccontr)
  assume "Insert_entry h k v t \<noteq> None"
  then obtain y where run: "Insert_entry h k v t = Some y" by auto
  have "h = h \<and> k = k \<and> table_inv h t \<and> bucket_size t = 1 \<and> Find h k0 t = Some a \<longrightarrow> False"
  proof (rule Insert_entry.raw_induct
      [where P = "\<lambda>h' k' v' t' y. h' = h \<and> k' = k \<and> table_inv h t' \<and> bucket_size t' = 1
                     \<and> Find h k0 t' = Some a \<longrightarrow> False"
        and h = h and k = k and v = v and t = t and y = y])
    show "Insert_entry h k v t = Some y" by (rule run)
  next
    fix ins :: "('a \<Rightarrow> nat) \<Rightarrow> 'a \<Rightarrow> 'b \<Rightarrow> ('a, 'b) ExtendibleHashTable \<Rightarrow> ('a, 'b) ExtendibleHashTable option"
    fix h' k' v' t' ha
    assume IH: "\<And>h'' k'' v'' t0 y. ins h'' k'' v'' t0 = Some y \<Longrightarrow>
                  h'' = h \<and> k'' = k \<and> table_inv h t0 \<and> bucket_size t0 = 1
                  \<and> Find h k0 t0 = Some a \<longrightarrow> False"
      and body: "(let bh = dir t' ! IndexOf h' t' k'; r = Bucket_Insert k' v' (buckets t' ! bh)
                  in if fst r then Some (set_bucket bh (snd r) t')
                     else case split_bucket h' k' t' of None \<Rightarrow> None | Some t'' \<Rightarrow> ins h' k' v' t'')
                 = Some ha"
    show "h' = h \<and> k' = k \<and> table_inv h t' \<and> bucket_size t' = 1 \<and> Find h k0 t' = Some a \<longrightarrow> False"
    proof
      assume a: "h' = h \<and> k' = k \<and> table_inv h t' \<and> bucket_size t' = 1 \<and> Find h k0 t' = Some a"
      then have inv': "table_inv h t'" and one': "bucket_size t' = 1"
        and pr': "Find h k0 t' = Some a" and hh: "h' = h" and kk: "k' = k"
        by simp_all
      have g30: "global_depth t' \<le> 30" using inv' by (simp add: table_inv_def)
      have same: "IndexOf h t' k = IndexOf h t' k0"
        using coll g30 by (simp add: IndexOf_def)
      have s: "IndexOf h t' k < length (dir t')" using inv' by (rule IndexOf_less)
      have ok: "slot_ok h t' (IndexOf h t' k)" using inv' s by (rule table_inv_slot)
      have "list_find k0 (items (buckets t' ! (dir t' ! IndexOf h t' k))) = Some a"
        using pr' by (simp add: Find_def GetIndexBucket_def Bucket_Find_def same)
      then have "items (buckets t' ! (dir t' ! IndexOf h t' k)) \<noteq> []" by auto
      then have "Suc 0 \<le> length (items (buckets t' ! (dir t' ! IndexOf h t' k)))"
        by (simp add: Suc_le_eq)
      moreover have "bsize (buckets t' ! (dir t' ! IndexOf h t' k)) = Suc 0"
        using ok one' by (simp add: slot_ok_def)
      ultimately have full: "IsFull (buckets t' ! (dir t' ! IndexOf h t' k))"
        by (simp add: IsFull_def)
      then obtain t1 where sp: "split_bucket h k t' = Some t1" and rec: "ins h k v' t1 = Some ha"
        using body by (auto simp: hh kk Let_def Bucket_Insert_def split: option.splits)
      have c: "table_inv h t1 \<and> (\<forall>k'. Find h k' t1 = Find h k' t')"
        using inv' sp by (rule split_bucket_correct)
      have "bucket_size t1 = 1" using split_bucket_bucket_size [OF inv' sp] one' by simp
      with c pr' IH [OF rec] show False by simp
    qed
  qed
  with inv one present show False by simp
qed


lemma second_insert_does_not_return:
  assumes "\<forall>g\<le>30. hash_int k mod 2 ^ g = hash_int 0 mod 2 ^ g"
  shows "Insert_entry hash_int 0 (10 :: int) (ExtendibleHashTable_new 1) \<noteq> None
         \<and> Option.bind (Insert_entry hash_int 0 (10 :: int) (ExtendibleHashTable_new 1))
             (Insert_entry hash_int k v) = None"
proof -
  let ?t0 = "ExtendibleHashTable_new 1 :: (int, int) ExtendibleHashTable"
  have nf: "\<not> IsFull (buckets ?t0 ! (dir ?t0 ! IndexOf hash_int ?t0 0))"
    by (simp add: ExtendibleHashTable_new_def Bucket_new_def IsFull_def IndexOf_def)
  have r1: "Insert_entry hash_int 0 10 ?t0 = Some (reinsert hash_int (0, 10) ?t0)"
    using nf by (rule Insert_entry_not_full)
  let ?t1 = "reinsert hash_int (0, 10) ?t0"
  have c: "table_inv hash_int ?t1 \<and> Find hash_int 0 ?t1 = Some 10
           \<and> (\<forall>k'. k' \<noteq> 0 \<longrightarrow> Find hash_int k' ?t1 = Find hash_int k' ?t0)"
    using r1 table_inv_new by (rule Insert_entry_correct)
  have one: "bucket_size ?t1 = 1"
    by (simp add: reinsert_bucket_size ExtendibleHashTable_new_def)
  have n: "Insert_entry hash_int k v ?t1 = None"
    using c one assms
    by (intro Insert_entry_diverges [where ?k0.0 = 0 and a = 10]) simp_all
  show ?thesis unfolding r1 using n by simp
qed

text \<open>
  C7 (the code departs from the claim). A table with \<^verbatim>\<open>bucket_size = 2\<close> holds the keys
  0 and 1 in its one bucket, which is full (global depth 0, one bucket).
  \<^verbatim>\<open>Insert(0, 12)\<close> finds the bucket full before it looks for the key
  (\<^verbatim>\<open>Bucket::Insert\<close> returns false), so the table splits the bucket: afterwards the
  global depth is 1 and there are two buckets. The value of key 0 is 12 in the end.
  With \<^verbatim>\<open>bucket_size = 1\<close> the second \<^verbatim>\<open>Insert\<close> of a key splits its bucket again and
  again and does not return.
\<close>

theorem C7_insert_present_key_full_bucket_at_failing_input:
  "map_option (\<lambda>t. (global_depth t, num_buckets t, map (\<lambda>b. items b) (buckets t)))
     (insert_entries hash_int [(0, 10 :: int), (1, 11)] (ExtendibleHashTable_new 2))
   = Some (0, 1, [[(0, 10), (1, 11)]])
   \<and> map_option (\<lambda>t. (global_depth t, num_buckets t, map (\<lambda>b. items b) (buckets t)))
     (insert_entries hash_int [(0, 10 :: int), (1, 11), (0, 12)] (ExtendibleHashTable_new 2))
   = Some (1, 2, [[(0, 12)], [(1, 11)]])
   \<and> Option.bind (Insert_entry hash_int 0 (10 :: int) (ExtendibleHashTable_new 1))
       (Insert_entry hash_int 0 12) = None"
proof -
  have a: "map_option (\<lambda>t. (global_depth t, num_buckets t, map (\<lambda>b. items b) (buckets t)))
     (insert_entries hash_int [(0, 10 :: int), (1, 11)] (ExtendibleHashTable_new 2))
   = Some (0, 1, [[(0, 10), (1, 11)]])"
    by code_simp
  have b: "map_option (\<lambda>t. (global_depth t, num_buckets t, map (\<lambda>b. items b) (buckets t)))
     (insert_entries hash_int [(0, 10 :: int), (1, 11), (0, 12)] (ExtendibleHashTable_new 2))
   = Some (1, 2, [[(0, 12)], [(1, 11)]])"
    by code_simp
  have c: "Option.bind (Insert_entry hash_int 0 (10 :: int) (ExtendibleHashTable_new 1))
       (Insert_entry hash_int 0 12) = None"
    using second_insert_does_not_return [of 0 12] by simp
  from a b c show ?thesis by simp
qed





section \<open>Theorems: buffer pool\<close>

lemma GetAvailableFrame_fails:
  "GetAvailableFrame s = Some (None, s') \<Longrightarrow> s' = s \<and> free_list s = [] \<and> Size (replacer s) = 0"
  unfolding GetAvailableFrame_def
  by (auto simp: Let_def split: list.splits prod.splits option.splits if_splits
           dest!: Evict_None_state)

lemma GetAvailableFrame_none_available:
  "free_list s = [] \<Longrightarrow> Size (replacer s) = 0 \<Longrightarrow> GetAvailableFrame s = Some (None, s)"
  by (simp add: GetAvailableFrame_def Evict_empty)

text \<open>
  C9. When \<^verbatim>\<open>NewPgImp\<close> finds the free list empty and the replacer with nothing to
  evict, it returns \<^verbatim>\<open>nullptr\<close> and the whole state of the pool (counter
  \<^verbatim>\<open>next_page_id_\<close>, page table, free list, replacer, every frame, the disk) is the
  state before the call; and whenever it returns \<^verbatim>\<open>nullptr\<close> that was the case.
\<close>

theorem C9_new_page_failure_keeps_state:
  "(free_list s = [] \<and> Size (replacer s) = 0 \<longrightarrow> NewPgImp s = Some (None, s))
   \<and> (NewPgImp s = Some (None, s') \<longrightarrow>
        s' = s \<and> next_page_id_counter s' = next_page_id_counter s \<and> free_list s = []
        \<and> Size (replacer s) = 0)"
proof (intro conjI impI)
  assume "free_list s = [] \<and> Size (replacer s) = 0"
  then show "NewPgImp s = Some (None, s)"
    by (simp add: NewPgImp_def GetAvailableFrame_none_available)
next
  assume a: "NewPgImp s = Some (None, s')"
  then have "GetAvailableFrame s = Some (None, s')"
    unfolding NewPgImp_def
    by (auto simp: Let_def split: option.splits prod.splits if_splits)
  then have "s' = s \<and> free_list s = [] \<and> Size (replacer s) = 0"
    by (rule GetAvailableFrame_fails)
  then show "s' = s" and "next_page_id_counter s' = next_page_id_counter s"
    and "free_list s = []" and "Size (replacer s) = 0"
    by simp_all
qed

theorem C9_new_page_failure_keeps_state_witness:
  "free_list full_pool = [] \<and> Size (replacer full_pool) = 0
   \<and> map pin_count (pages full_pool) = [1, 1, 1]
   \<and> NewPgImp full_pool = Some (None, full_pool)"
proof -
  have a: "free_list full_pool = []" by code_simp
  have b: "Size (replacer full_pool) = 0" by code_simp
  have c: "map pin_count (pages full_pool) = [1, 1, 1]" by code_simp
  from C9_new_page_failure_keeps_state [of full_pool] a b c show ?thesis by blast
qed

lemma set_frame_simps [simp]:
  "free_list (set_frame f pg s) = free_list s"
  "replacer (set_frame f pg s) = replacer s"
  "page_table (set_frame f pg s) = page_table s"
  "disk (set_frame f pg s) = disk s"
  "next_page_id_counter (set_frame f pg s) = next_page_id_counter s"
  "length (pages (set_frame f pg s)) = length (pages s)"
  by (simp_all add: set_frame_def)

lemma frame_at_set_frame [simp]:
  "frame_ok s f \<Longrightarrow> frame_at (set_frame f pg s) f = pg"
  by (simp add: frame_at_def set_frame_def frame_ok_def)


lemma frame_at_upd [simp]:
  "frame_at (s\<lparr>replacer := r\<rparr>) f = frame_at s f"
  "frame_at (s\<lparr>disk := d\<rparr>) f = frame_at s f"
  "frame_at (s\<lparr>page_table := pt\<rparr>) f = frame_at s f"
  "frame_ok (s\<lparr>replacer := r\<rparr>) f = frame_ok s f"
  "frame_ok (s\<lparr>disk := d\<rparr>) f = frame_ok s f"
  by (simp_all add: frame_at_def frame_ok_def)





lemma FetchPgImp_resident_not_null:
  "page_table s pid = Some f \<Longrightarrow> map_option fst (FetchPgImp pid s) \<noteq> Some None"
  by (auto simp: FetchPgImp_def split: option.splits if_splits)






section \<open>Theorems: B+ tree\<close>

text \<open>
  C1 (the code departs from the claim). In the tree of scenario TREE-1 the ten calls
  \<^verbatim>\<open>Insert(1), ..., Insert(10)\<close> all return true, and \<^verbatim>\<open>GetValue(9)\<close> afterwards
  returns false with an empty result: when the root internal page was split, the
  children moved to the new page kept the old page as \<^verbatim>\<open>parent_page_id\<close>, so the
  split of leaf \<open>[7, 8, 9, 10]\<close> put the separator 9 into the wrong internal page.
\<close>

theorem C1_insert_then_get_value_at_failing_input:
  "map_option fst (tree_after_inserts [1..10]) = Some (replicate 10 True)
   \<and> Option.bind (tree_after_inserts [1..10])
       (\<lambda>(oks, t). map_option (\<lambda>(found, res, t'). (found, res)) (GetValue 9 [] t))
     = Some (False, [])"
  by code_simp

text \<open>
  C2 (the code departs from the claim). The tree holds the single key 1 in its root
  leaf (page 1). \<^verbatim>\<open>Remove(1)\<close> empties the leaf and calls \<^verbatim>\<open>DeletePage\<close> on it while
  the leaf is still pinned by \<^verbatim>\<open>FindLeafPage\<close>, so \<^verbatim>\<open>DeletePgImp\<close> refuses; and
  \<^verbatim>\<open>root_page_id_\<close> is not reset. Afterwards \<^verbatim>\<open>IsEmpty()\<close> is false, the root page id
  is still 1, page 1 is still in the page table with pin count 1 and no entries, and
  its frame is not in the free list.
\<close>

theorem C2_remove_last_key_at_failing_input:
  "Option.bind (tree_after_inserts [1])
     (\<lambda>(oks, t). map_option
        (\<lambda>t'. (IsEmpty t', root_page_id t', resident_node t' 1,
               page_table (buffer_pool_manager t') 1,
               1 \<in> set (free_list (buffer_pool_manager t'))))
        (Remove_key 1 t))
   = Some (False, 1, Some (1, []), Some 1, False)"
  by code_simp

text \<open>
  C3 (the code departs from the claim). The tree of scenario TREE-1 after
  \<^verbatim>\<open>Insert(1), ..., Insert(4)\<close> has the leaves page 1 = \<open>[1, 2]\<close> and page 2 = \<open>[3, 4]\<close>
  under the root page 3 = \<open>[(_, 1), (3, 2)]\<close>. \<^verbatim>\<open>Remove(1)\<close> leaves page 1 with one
  entry and merges its right sibling into it. Afterwards page 1 shows
  \<open>[2, 3, 3]\<close> (the copy loop runs over the left node's size, 1, and the size grows by
  the right node's, 2), the root still has its two entries (its size is not
  decremented), and page 2 is still resident (it is pinned when \<^verbatim>\<open>DeletePage\<close> is
  called on it).
\<close>

theorem C3_coalesce_at_failing_input:
  "map_option (\<lambda>(oks, t). (root_page_id t, map (resident_node t) [1, 2, 3]))
     (tree_after_inserts [1..4])
   = Some (3, [Some (1, [(1, 101), (2, 102)]), Some (0, [(3, 103), (4, 104)]),
               Some (0, [(0, 1), (3, 2)])])
   \<and> Option.bind (tree_after_inserts [1..4])
       (\<lambda>(oks, t). map_option
          (\<lambda>t'. (root_page_id t', map (resident_node t') [1, 2, 3]))
          (Remove_key 1 t))
   = Some (3, [Some (2, [(2, 102), (3, 103), (3, 103)]), Some (1, [(3, 103), (4, 104)]),
               Some (0, [(0, 1), (3, 2)])])"
  by code_simp

text \<open>
  C4 (the code departs from the claim). The tree holds the single key 1 in its root
  leaf (page 1), whose frame has pin count 0. \<^verbatim>\<open>GetValue(7)\<close> returns false through
  the early \<^verbatim>\<open>return\<close> that skips \<^verbatim>\<open>UnpinPage\<close>: the leaf was pinned once by
  \<^verbatim>\<open>FindLeafPage\<close> and is unpinned zero times, its pin count is 1 afterwards.
\<close>

theorem C4_get_value_miss_at_failing_input:
  "Option.bind (tree_after_inserts [1])
     (\<lambda>(oks, t). map_option
        (\<lambda>(found, res, t'). (resident_node t 1, found, res, resident_node t' 1))
        (GetValue 7 [] t))
   = Some (Some (0, [(1, 101)]), False, [], Some (1, [(1, 101)]))"
  by code_simp

end
